theory Spec2Isabelle
  imports Complex_Main
begin

section \<open>Equivalent stressed volume of the specimen notebook\<close>

text \<open>
  The source is the pair of post-processing cells of
  \<^verbatim>\<open>examples/specimen_weibull/specimen_weibull.ipynb\<close>:
  \<^verbatim>\<open>
  s_mises = {eid: st.get_mises_stress(s) for eid, s in stress_result.values.items()}
  s_mises_max = max(np.max(s) for s in s_mises.values())
  print('Max. mises stress sig_eqv,max=', s_mises_max)

  v_eqv = 0.
  for eid, v in volume_result.values.items():
      s = s_mises[eid]
      v_i = v / len(s)
      v_eqv_e = np.sum((s / s_mises_max)**30 * v_i)
      v_eqv += v_eqv_e
  v_eqv *= 8
  print('Equivalent stressed volume V_eqv =', v_eqv)
  \<close>
  The notebook writes the Weibull modulus and the symmetry factor as the literals
  \<open>30\<close> and \<open>8\<close>; the embedding takes both as arguments \<open>m\<close> and \<open>factor\<close>, and
  \<open>notebook_cells\<close> below is the instance the notebook runs.

  The cells are embedded twice. In \<open>v_eqv\<close> floating-point numbers are idealised as
  real numbers: there is no rounding, no overflow and no signed zero. What numpy
  answers where real arithmetic has no answer (a division by zero, a negative base
  with a fractional exponent) is kept as the values \<open>PInf\<close>, \<open>NInf\<close> and \<open>NaN\<close>: numpy
  warns there and goes on, it does not raise. Which exception the cells raise does not
  depend on the arithmetic, and is studied on this embedding.

  In \<open>fl_v_eqv\<close> the same cells take the arithmetic as a parameter: how the result of
  one operation is rounded, how \<^verbatim>\<open>**\<close> is computed and in which order \<^verbatim>\<open>np.sum\<close>
  adds. The instance \<open>exact\<close> is the first embedding; the instance \<open>binary64\<close> rounds
  every operation to the nearest IEEE 754 double, ties to even, with gradual
  underflow and overflow to infinity. The values the cells compute are studied on
  this second embedding, for every arithmetic where that is possible.
\<close>

subsection \<open>Values\<close>

datatype pyexc = ValueError | KeyError

datatype npfloat = Fin real | PInf | NInf | NaN

text \<open>A Python dict in insertion order; a well-formed one has distinct keys.\<close>

type_synonym 'v pydict = "(int \<times> 'v) list"

subsection \<open>numpy arithmetic\<close>

text \<open>\<^verbatim>\<open>x / y\<close> on finite floats.\<close>

definition np_div :: "real \<Rightarrow> real \<Rightarrow> npfloat" where
  "np_div x y =
     (if y \<noteq> 0 then Fin (x / y)
      else if 0 < x then PInf
      else if x < 0 then NInf
      else NaN)"

definition is_integer :: "real \<Rightarrow> bool" where
  "is_integer m \<longleftrightarrow> m = of_int \<lfloor>m\<rfloor>"

definition is_odd_integer :: "real \<Rightarrow> bool" where
  "is_odd_integer m \<longleftrightarrow> is_integer m \<and> odd \<lfloor>m\<rfloor>"

text \<open>\<^verbatim>\<open>a ** m\<close> for a finite exponent \<open>m\<close> (the C library's \<open>pow\<close>).\<close>

definition np_power :: "npfloat \<Rightarrow> real \<Rightarrow> npfloat" where
  "np_power a m =
     (if m = 0 then Fin 1
      else case a of
        Fin x \<Rightarrow>
          (if 0 < x then Fin (x powr m)
           else if x = 0 then (if 0 < m then Fin 0 else PInf)
           else if is_integer m then Fin (x powi \<lfloor>m\<rfloor>)
           else NaN)
      | PInf \<Rightarrow> (if 0 < m then PInf else Fin 0)
      | NInf \<Rightarrow> (if 0 < m then (if is_odd_integer m then NInf else PInf) else Fin 0)
      | NaN \<Rightarrow> NaN)"

text \<open>The sign of an infinite product: positive, negative, or none (\<open>inf * 0\<close>).\<close>

definition inf_of_sign :: "real \<Rightarrow> npfloat" where
  "inf_of_sign r = (if 0 < r then PInf else if r < 0 then NInf else NaN)"

fun np_sign :: "npfloat \<Rightarrow> real" where
  "np_sign (Fin x) = sgn x"
| "np_sign PInf = 1"
| "np_sign NInf = - 1"
| "np_sign NaN = 0"

fun np_mul :: "npfloat \<Rightarrow> npfloat \<Rightarrow> npfloat" where
  "np_mul (Fin x) (Fin y) = Fin (x * y)"
| "np_mul NaN b = NaN"
| "np_mul a NaN = NaN"
| "np_mul a b = inf_of_sign (np_sign a * np_sign b)"

fun np_add :: "npfloat \<Rightarrow> npfloat \<Rightarrow> npfloat" where
  "np_add (Fin x) (Fin y) = Fin (x + y)"
| "np_add NaN b = NaN"
| "np_add a NaN = NaN"
| "np_add PInf NInf = NaN"
| "np_add NInf PInf = NaN"
| "np_add PInf b = PInf"
| "np_add a PInf = PInf"
| "np_add NInf b = NInf"
| "np_add a NInf = NInf"

text \<open>\<^verbatim>\<open>np.sum\<close> of a vector.\<close>

definition np_sum :: "npfloat list \<Rightarrow> npfloat" where
  "np_sum xs = foldl np_add (Fin 0) xs"

text \<open>\<^verbatim>\<open>np.max\<close> of a vector: a zero-size array raises \<open>ValueError\<close>.\<close>

fun np_max :: "real list \<Rightarrow> pyexc + real" where
  "np_max [] = Inl ValueError"
| "np_max (x # xs) = Inr (fold max xs x)"

subsection \<open>The first cell: the maximum stress\<close>

text \<open>
  \<^verbatim>\<open>s_mises = {eid: st.get_mises_stress(s) for eid, s in stress_result.values.items()}\<close>.
  The function \<open>get_mises_stress\<close> belongs to the framework, not to the notebook, and is
  an argument here; it turns the stress components of an element into one scalar per
  integration point.
\<close>

definition s_mises_of :: "('a \<Rightarrow> real list) \<Rightarrow> 'a pydict \<Rightarrow> real list pydict" where
  "s_mises_of get_mises_stress stress_values =
     map (\<lambda>(eid, s). (eid, get_mises_stress s)) stress_values"

text \<open>
  Python's \<open>max\<close> over the generator \<^verbatim>\<open>(np.max(s) for s in s_mises.values())\<close>: the
  generator is consumed in order, an exception of \<open>np.max\<close> passes through, and an
  empty generator raises \<open>ValueError\<close>.
\<close>

fun max_loop :: "real \<Rightarrow> real list list \<Rightarrow> pyexc + real" where
  "max_loop cur [] = Inr cur"
| "max_loop cur (s # ss) =
     (case np_max s of Inl e \<Rightarrow> Inl e | Inr y \<Rightarrow> max_loop (max cur y) ss)"

definition s_mises_max :: "real list pydict \<Rightarrow> pyexc + real" where
  "s_mises_max s_mises =
     (case map snd s_mises of
        [] \<Rightarrow> Inl ValueError
      | s # ss \<Rightarrow> (case np_max s of Inl e \<Rightarrow> Inl e | Inr y \<Rightarrow> max_loop y ss))"

subsection \<open>The second cell: the sum over the elements\<close>

text \<open>\<^verbatim>\<open>np.sum((s / s_mises_max)**m * v_i)\<close> with \<^verbatim>\<open>v_i = v / len(s)\<close>.\<close>

definition v_eqv_e :: "real \<Rightarrow> real \<Rightarrow> real list \<Rightarrow> real \<Rightarrow> npfloat" where
  "v_eqv_e m smax s v =
     (let v_i = np_div v (real (length s))
      in np_sum (map (\<lambda>x. np_mul (np_power (np_div x smax) m) v_i) s))"

text \<open>
  The loop over \<^verbatim>\<open>volume_result.values.items()\<close>; \<^verbatim>\<open>s_mises[eid]\<close> raises
  \<open>KeyError\<close> for an element without stresses.
\<close>

fun v_eqv_loop ::
  "real \<Rightarrow> real \<Rightarrow> real list pydict \<Rightarrow> real pydict \<Rightarrow> npfloat \<Rightarrow> pyexc + npfloat" where
  "v_eqv_loop m smax s_mises [] acc = Inr acc"
| "v_eqv_loop m smax s_mises ((eid, v) # rest) acc =
     (case map_of s_mises eid of
        None \<Rightarrow> Inl KeyError
      | Some s \<Rightarrow> v_eqv_loop m smax s_mises rest (np_add acc (v_eqv_e m smax s v)))"

text \<open>The value of \<open>v_eqv\<close> when the loop ends, before the symmetry factor.\<close>

definition v_eqv_raw :: "real \<Rightarrow> real list pydict \<Rightarrow> real pydict \<Rightarrow> pyexc + npfloat" where
  "v_eqv_raw m s_mises volume =
     (case s_mises_max s_mises of
        Inl e \<Rightarrow> Inl e
      | Inr smax \<Rightarrow> v_eqv_loop m smax s_mises volume (Fin 0))"

text \<open>
  Both cells, run one after the other: the two numbers they print, \<open>v_eqv\<close> and
  \<open>s_mises_max\<close>, or the exception that stops them. The first cell prints
  \<open>s_mises_max\<close> before the second starts, so an exception of the second cell leaves the
  value of \<open>s_mises_max\<close> behind.
\<close>

definition v_eqv :: "real \<Rightarrow> real \<Rightarrow> real list pydict \<Rightarrow> real pydict \<Rightarrow> pyexc + npfloat \<times> real" where
  "v_eqv m factor s_mises volume =
     (case s_mises_max s_mises of
        Inl e \<Rightarrow> Inl e
      | Inr smax \<Rightarrow>
          (case v_eqv_loop m smax s_mises volume (Fin 0) of
             Inl e \<Rightarrow> Inl e
           | Inr raw \<Rightarrow> Inr (np_mul raw (Fin factor), smax)))"

definition notebook_cells ::
  "('a \<Rightarrow> real list) \<Rightarrow> 'a pydict \<Rightarrow> real pydict \<Rightarrow> pyexc + npfloat \<times> real" where
  "notebook_cells get_mises_stress stress_values volume_values =
     v_eqv 30 8 (s_mises_of get_mises_stress stress_values) volume_values"

subsection \<open>Vocabulary of the specification\<close>

text \<open>
  The notions the claims are stated with: the key set of a dict, the stress values of
  all integration points, the inputs the specification calls valid, and the closed
  form of the sum.
\<close>

definition all_stresses :: "real list pydict \<Rightarrow> real list" where
  "all_stresses s_mises = concat (map snd s_mises)"

definition key_set :: "'v pydict \<Rightarrow> int set" where
  "key_set d = set (map fst d)"

definition well_formed :: "'v pydict \<Rightarrow> bool" where
  "well_formed d \<longleftrightarrow> distinct (map fst d)"

definition stress_at :: "real list pydict \<Rightarrow> int \<Rightarrow> real list" where
  "stress_at s_mises e = the (map_of s_mises e)"

definition volume_at :: "real pydict \<Rightarrow> int \<Rightarrow> real" where
  "volume_at volume e = the (map_of volume e)"

text \<open>
  The inputs of section 4.1 of the specification: sequences of length at least one of
  non-negative stresses with a positive maximum, positive volumes, the same keys in
  both mappings, a positive modulus.
\<close>

definition valid_stresses :: "real list pydict \<Rightarrow> bool" where
  "valid_stresses s_mises \<longleftrightarrow>
     well_formed s_mises \<and> s_mises \<noteq> [] \<and> [] \<notin> set (map snd s_mises) \<and>
     (\<forall>x\<in>set (all_stresses s_mises). 0 \<le> x) \<and>
     0 < Max (set (all_stresses s_mises))"

definition valid_volumes :: "real pydict \<Rightarrow> bool" where
  "valid_volumes volume \<longleftrightarrow> well_formed volume \<and> (\<forall>v\<in>set (map snd volume). 0 < v)"

definition valid_input :: "real \<Rightarrow> real list pydict \<Rightarrow> real pydict \<Rightarrow> bool" where
  "valid_input m s_mises volume \<longleftrightarrow>
     valid_stresses s_mises \<and> valid_volumes volume \<and>
     key_set s_mises = key_set volume \<and> 0 < m"

text \<open>
  The contribution \<open>c\<^sub>e\<close> of one element as the specification writes it, over the
  reals: the sum over its integration points of \<open>(s\<^sub>e[i] / s\<^sub>m\<^sub>a\<^sub>x) ^ m * (V\<^sub>e / n\<^sub>e)\<close>; and
  \<open>raw_sum\<close>, the sum of the contributions of the elements of the volume mapping.
\<close>

definition contribution :: "real \<Rightarrow> real \<Rightarrow> real list \<Rightarrow> real \<Rightarrow> real" where
  "contribution m smax s v = (\<Sum>x\<leftarrow>s. (x / smax) powr m * (v / real (length s)))"

text \<open>Every stress value multiplied by \<open>k\<close>.\<close>

definition scale_stresses :: "real \<Rightarrow> real list pydict \<Rightarrow> real list pydict" where
  "scale_stresses k s_mises = map (\<lambda>(e, s). (e, map (\<lambda>x. k * x) s)) s_mises"

definition raw_sum :: "real \<Rightarrow> real list pydict \<Rightarrow> real pydict \<Rightarrow> real" where
  "raw_sum m s_mises volume =
     (\<Sum>(e, v)\<leftarrow>volume.
        contribution m (Max (set (all_stresses s_mises))) (stress_at s_mises e) v)"

text \<open>
  The elements at which the maximum stress occurs, in the order of the dict. The
  cells compute no such thing; the notion is needed to state claim C2.
\<close>

definition critical_elements :: "real list pydict \<Rightarrow> int list" where
  "critical_elements s_mises =
     map fst (filter (\<lambda>(e, s). Max (set (all_stresses s_mises)) \<in> set s) s_mises)"

text \<open>All stress values of all elements are the constant \<open>c\<close>.\<close>

definition uniform_stresses :: "real \<Rightarrow> real list pydict \<Rightarrow> bool" where
  "uniform_stresses c s_mises \<longleftrightarrow> (\<forall>x\<in>set (all_stresses s_mises). x = c)"

text \<open>\<^verbatim>\<open>np.isfinite\<close>.\<close>

fun np_isfinite :: "npfloat \<Rightarrow> bool" where
  "np_isfinite (Fin x) = True"
| "np_isfinite PInf = False"
| "np_isfinite NInf = False"
| "np_isfinite NaN = False"

subsection \<open>Floating-point arithmetic\<close>

text \<open>Rounding a real number to the nearest integer, a tie to the even one.\<close>

definition rne :: "real \<Rightarrow> int" where
  "rne y =
     (let n = \<lfloor>y\<rfloor>; r = y - of_int n
      in if r < 1 / 2 then n
         else if 1 / 2 < r then n + 1
         else if even n then n else n + 1)"

text \<open>
  Rounding \<open>x\<close> to a double, given its binary exponent \<open>e\<close>: the spacing of the doubles
  around \<open>x\<close> is \<open>2 powi (e - 52)\<close>, and \<open>2 powi (- 1074)\<close> below the smallest normal
  number; a rounded value of magnitude \<open>2 powi 1024\<close> overflows to an infinity.
\<close>

definition b64_at :: "int \<Rightarrow> real \<Rightarrow> npfloat" where
  "b64_at e x =
     (let q = 2 powi (max e (- 1022) - 52);
          y = of_int (rne (x / q)) * q
      in if 2 powi 1024 \<le> \<bar>y\<bar> then (if 0 < x then PInf else NInf) else Fin y)"

definition b64 :: "real \<Rightarrow> npfloat" where
  "b64 x = (if x = 0 then Fin 0 else b64_at \<lfloor>log 2 \<bar>x\<bar>\<rfloor> x)"

text \<open>The rounded value of \<open>x\<close> before the overflow test.\<close>

definition b64_val :: "real \<Rightarrow> real" where
  "b64_val x =
     of_int (rne (x / 2 powi (max \<lfloor>log 2 \<bar>x\<bar>\<rfloor> (- 1022) - 52)))
       * 2 powi (max \<lfloor>log 2 \<bar>x\<bar>\<rfloor> (- 1022) - 52)"

text \<open>
  An arithmetic: \<open>rnd\<close> turns the exact result of one division, product or sum of
  finite numbers into the float that the operation returns, \<open>pw x m\<close> is \<^verbatim>\<open>x ** m\<close> for
  a finite base other than \<open>0\<close> and \<open>1\<close>, and \<open>vsum\<close> is \<^verbatim>\<open>np.sum\<close> of a vector.
\<close>

record arith =
  rnd :: "real \<Rightarrow> npfloat"
  pw :: "real \<Rightarrow> real \<Rightarrow> npfloat"
  vsum :: "npfloat list \<Rightarrow> npfloat"

definition fl_div :: "(real \<Rightarrow> npfloat) \<Rightarrow> real \<Rightarrow> real \<Rightarrow> npfloat" where
  "fl_div r x y =
     (if y \<noteq> 0 then r (x / y)
      else if 0 < x then PInf
      else if x < 0 then NInf
      else NaN)"

definition fl_pow :: "(real \<Rightarrow> real \<Rightarrow> npfloat) \<Rightarrow> npfloat \<Rightarrow> real \<Rightarrow> npfloat" where
  "fl_pow p a m =
     (if m = 0 then Fin 1
      else case a of
        Fin x \<Rightarrow>
          (if x = 1 then Fin 1
           else if x = 0 then (if 0 < m then Fin 0 else PInf)
           else p x m)
      | PInf \<Rightarrow> (if 0 < m then PInf else Fin 0)
      | NInf \<Rightarrow> (if 0 < m then (if is_odd_integer m then NInf else PInf) else Fin 0)
      | NaN \<Rightarrow> NaN)"

fun fl_mul :: "(real \<Rightarrow> npfloat) \<Rightarrow> npfloat \<Rightarrow> npfloat \<Rightarrow> npfloat" where
  "fl_mul r (Fin x) (Fin y) = r (x * y)"
| "fl_mul r a b = np_mul a b"

fun fl_add :: "(real \<Rightarrow> npfloat) \<Rightarrow> npfloat \<Rightarrow> npfloat \<Rightarrow> npfloat" where
  "fl_add r (Fin x) (Fin y) = r (x + y)"
| "fl_add r a b = np_add a b"

text \<open>The second cell once more, every operation in the arithmetic \<open>A\<close>.\<close>

definition fl_v_eqv_e :: "arith \<Rightarrow> real \<Rightarrow> real \<Rightarrow> real list \<Rightarrow> real \<Rightarrow> npfloat" where
  "fl_v_eqv_e A m smax s v =
     (let v_i = fl_div (rnd A) v (real (length s))
      in vsum A (map (\<lambda>x. fl_mul (rnd A) (fl_pow (pw A) (fl_div (rnd A) x smax) m) v_i) s))"

fun fl_v_eqv_loop ::
  "arith \<Rightarrow> real \<Rightarrow> real \<Rightarrow> real list pydict \<Rightarrow> real pydict \<Rightarrow> npfloat \<Rightarrow> pyexc + npfloat" where
  "fl_v_eqv_loop A m smax s_mises [] acc = Inr acc"
| "fl_v_eqv_loop A m smax s_mises ((eid, v) # rest) acc =
     (case map_of s_mises eid of
        None \<Rightarrow> Inl KeyError
      | Some s \<Rightarrow>
          fl_v_eqv_loop A m smax s_mises rest (fl_add (rnd A) acc (fl_v_eqv_e A m smax s v)))"

definition fl_v_eqv_raw :: "arith \<Rightarrow> real \<Rightarrow> real list pydict \<Rightarrow> real pydict \<Rightarrow> pyexc + npfloat" where
  "fl_v_eqv_raw A m s_mises volume =
     (case s_mises_max s_mises of
        Inl e \<Rightarrow> Inl e
      | Inr smax \<Rightarrow> fl_v_eqv_loop A m smax s_mises volume (Fin 0))"

definition fl_v_eqv ::
  "arith \<Rightarrow> real \<Rightarrow> real \<Rightarrow> real list pydict \<Rightarrow> real pydict \<Rightarrow> pyexc + npfloat \<times> real" where
  "fl_v_eqv A m factor s_mises volume =
     (case s_mises_max s_mises of
        Inl e \<Rightarrow> Inl e
      | Inr smax \<Rightarrow>
          (case fl_v_eqv_loop A m smax s_mises volume (Fin 0) of
             Inl e \<Rightarrow> Inl e
           | Inr raw \<Rightarrow> Inr (fl_mul (rnd A) raw (Fin factor), smax)))"

text \<open>
  The arithmetic of the notebook. The power is taken as correctly rounded; where this
  instance is evaluated below, the power is itself a double (the bases are powers of
  two), and the C library's \<open>pow\<close> returns it. \<^verbatim>\<open>np.sum\<close> adds the entries from left
  to right, which numpy does for a vector of fewer than eight entries.
\<close>

definition b64_pow :: "real \<Rightarrow> real \<Rightarrow> npfloat" where
  "b64_pow x m = (case np_power (Fin x) m of Fin y \<Rightarrow> b64 y | z \<Rightarrow> z)"

definition binary64 :: arith where
  "binary64 = \<lparr>rnd = b64, pw = b64_pow, vsum = foldl (fl_add b64) (Fin 0)\<rparr>"

text \<open>The arithmetic without rounding.\<close>

definition exact :: arith where
  "exact = \<lparr>rnd = Fin, pw = (\<lambda>x. np_power (Fin x)), vsum = np_sum\<rparr>"

text \<open>A float is not changed by rounding it again.\<close>

definition rounds_to_itself :: "(real \<Rightarrow> npfloat) \<Rightarrow> bool" where
  "rounds_to_itself r \<longleftrightarrow> r 1 = Fin 1 \<and> (\<forall>x y. r x = Fin y \<longrightarrow> r y = Fin y)"

text \<open>
  The sum of the volume shares: what the second cell computes when every factor
  \<^verbatim>\<open>(s / s_mises_max)**m\<close> is replaced by \<open>1\<close>.
\<close>

definition share_sum :: "arith \<Rightarrow> real list pydict \<Rightarrow> real pydict \<Rightarrow> npfloat" where
  "share_sum A s_mises volume =
     foldl (\<lambda>a (e, v). fl_add (rnd A) a
              (vsum A (replicate (length (stress_at s_mises e))
                 (fl_div (rnd A) v (real (length (stress_at s_mises e)))))))
       (Fin 0) volume"

text \<open>The order of the floats; \<open>NaN\<close> compares with nothing.\<close>

fun np_le :: "npfloat \<Rightarrow> npfloat \<Rightarrow> bool" where
  "np_le (Fin x) (Fin y) = (x \<le> y)"
| "np_le NaN b = False"
| "np_le a NaN = False"
| "np_le NInf b = True"
| "np_le a PInf = True"
| "np_le a b = False"

text \<open>
  What the bounds need of an arithmetic: rounding is monotone on the non-negative
  numbers and keeps \<open>0\<close>, \<open>1\<close> and every float; a power of a base in \<open>(0, 1)\<close> with a
  positive exponent lies in \<open>[0, 1]\<close>; the sum of non-negative floats does not decrease
  when entries grow, and a sum of zeros is zero.
\<close>

definition ordered_arith :: "arith \<Rightarrow> bool" where
  "ordered_arith A \<longleftrightarrow>
     (\<forall>x y. 0 \<le> x \<and> x \<le> y \<longrightarrow> np_le (rnd A x) (rnd A y)) \<and>
     rnd A 0 = Fin 0 \<and> rnd A 1 = Fin 1 \<and>
     (\<forall>x y. rnd A x = Fin y \<longrightarrow> rnd A y = Fin y) \<and>
     (\<forall>x m. 0 < x \<and> x < 1 \<and> 0 < m \<longrightarrow>
        np_le (Fin 0) (pw A x m) \<and> np_le (pw A x m) (Fin 1)) \<and>
     (\<forall>xs ys. list_all2 (\<lambda>x y. np_le (Fin 0) x \<and> np_le x y) xs ys \<longrightarrow>
        np_le (vsum A xs) (vsum A ys)) \<and>
     (\<forall>n. vsum A (replicate n (Fin 0)) = Fin 0)"

section \<open>Properties\<close>

subsection \<open>Auxiliary facts\<close>

lemma np_max_eq: assumes "s \<noteq> []" shows "np_max s = Inr (Max (set s))"
proof (cases s)
  case Nil
  with assms show ?thesis by simp
next
  case (Cons a list)
  then show ?thesis using Max.set_eq_fold [of a list] by simp
qed

lemma Max_insert_max:
  fixes cur :: real
  assumes "finite S" "S \<noteq> {}" "finite C"
  shows "Max (insert (max cur (Max S)) C) = Max (insert cur (S \<union> C))"
proof (cases "C = {}")
  case True
  with assms show ?thesis by simp
next
  case False
  with assms show ?thesis by (simp add: Max_Un max.assoc)
qed

lemma Max_insert_Max:
  fixes S :: "real set"
  assumes "finite S" "S \<noteq> {}" "finite C"
  shows "Max (insert (Max S) C) = Max (S \<union> C)"
proof (cases "C = {}")
  case True
  with assms show ?thesis by simp
next
  case False
  with assms show ?thesis by (simp add: Max_Un)
qed

lemma max_loop_eq:
  "max_loop cur ss =
     (if [] \<in> set ss then Inl ValueError else Inr (Max (insert cur (set (concat ss)))))"
proof (induction ss arbitrary: cur)
  case Nil
  show ?case by simp
next
  case (Cons s ss)
  show ?case
  proof (cases "s = []")
    case True
    then show ?thesis by simp
  next
    case False
    then have "Max (insert (max cur (Max (set s))) (set (concat ss)))
        = Max (insert cur (set s \<union> set (concat ss)))"
      by (intro Max_insert_max) simp_all
    with False Cons show ?thesis
      by (auto simp add: np_max_eq)
  qed
qed

lemma s_mises_max_eq:
  "s_mises_max st =
     (if st = [] \<or> [] \<in> set (map snd st) then Inl ValueError
      else Inr (Max (set (all_stresses st))))"
proof (cases st)
  case Nil
  then show ?thesis by (simp add: s_mises_max_def)
next
  case (Cons p rest)
  obtain e s where p: "p = (e, s)" by (cases p)
  show ?thesis
  proof (cases "s = []")
    case True
    with Cons p show ?thesis by (simp add: s_mises_max_def)
  next
    case False
    then have "Max (insert (Max (set s)) (set (concat (map snd rest))))
        = Max (set s \<union> set (concat (map snd rest)))"
      by (intro Max_insert_Max) simp_all
    with False Cons p show ?thesis
      by (auto simp add: s_mises_max_def np_max_eq max_loop_eq all_stresses_def)
  qed
qed

lemma foldl_np_add_Fin: "foldl np_add (Fin a) (map Fin xs) = Fin (a + sum_list xs)"
  by (induction xs arbitrary: a) (simp_all add: add.assoc)

text \<open>On an integer literal such as the notebook's \<open>30\<close>, \<open>**\<close> is the ordinary power.\<close>

lemma np_power_nat: "np_power (Fin x) (real n) = Fin (x ^ n)"
proof (cases "n = 0")
  case True
  then show ?thesis by (simp add: np_power_def)
next
  case False
  then show ?thesis
    by (cases "0 < x") (auto simp add: np_power_def powr_realpow is_integer_def)
qed

lemma np_power_ratio:
  assumes "0 < m" "0 \<le> r"
  shows "np_power (Fin r) m = Fin (r powr m)"
  using assms by (simp add: np_power_def)

lemma v_eqv_e_Fin:
  assumes "0 < m" "smax \<noteq> 0" "s \<noteq> []" "\<forall>x\<in>set s. 0 \<le> x / smax"
  shows "v_eqv_e m smax s v = Fin (contribution m smax s v)"
proof -
  let ?g = "\<lambda>x. (x / smax) powr m * (v / real (length s))"
  have "np_mul (np_power (np_div x smax) m) (np_div v (real (length s))) = Fin (?g x)"
    if "x \<in> set s" for x
    using that assms by (simp add: np_div_def np_power_ratio)
  then have "map (\<lambda>x. np_mul (np_power (np_div x smax) m) (np_div v (real (length s)))) s
      = map Fin (map ?g s)"
    by simp
  then have "v_eqv_e m smax s v = foldl np_add (Fin 0) (map Fin (map ?g s))"
    by (simp only: v_eqv_e_def np_sum_def Let_def)
  then show ?thesis
    by (simp only: foldl_np_add_Fin contribution_def) simp
qed

lemma v_eqv_loop_Fin:
  assumes "0 < m" "smax \<noteq> 0"
    and "\<forall>(e, v)\<in>set vol. \<exists>s. map_of st e = Some s \<and> s \<noteq> [] \<and> (\<forall>x\<in>set s. 0 \<le> x / smax)"
  shows "v_eqv_loop m smax st vol (Fin a) =
     Inr (Fin (a + (\<Sum>(e, v)\<leftarrow>vol. contribution m smax (stress_at st e) v)))"
  using assms(3)
proof (induction vol arbitrary: a)
  case Nil
  show ?case by simp
next
  case (Cons p vol)
  obtain e v where p: "p = (e, v)" by (cases p)
  from Cons.prems p obtain s where s: "map_of st e = Some s" "s \<noteq> []" "\<forall>x\<in>set s. 0 \<le> x / smax"
    by auto
  from Cons.prems have rest: "\<forall>(e, v)\<in>set vol. \<exists>s. map_of st e = Some s \<and> s \<noteq> [] \<and> (\<forall>x\<in>set s. 0 \<le> x / smax)"
    by simp
  show ?case
    using s p Cons.IH [OF rest] assms(1,2)
    by (simp add: v_eqv_e_Fin add.assoc stress_at_def)
qed

lemma stress_lookup:
  assumes "valid_stresses st" "e \<in> key_set st"
  shows "\<exists>s. map_of st e = Some s \<and> s \<noteq> [] \<and>
           (\<forall>x\<in>set s. 0 \<le> x / Max (set (all_stresses st)))"
proof -
  from assms(2) obtain s where s: "map_of st e = Some s"
    by (auto simp add: key_set_def weak_map_of_SomeI dest!: weak_map_of_SomeI)
  then have mem: "(e, s) \<in> set st" by (rule map_of_SomeD)
  with assms(1) have "s \<noteq> []" by (force simp add: valid_stresses_def)
  moreover from mem have "set s \<subseteq> set (all_stresses st)"
    by (force simp add: all_stresses_def)
  with assms(1) have "\<forall>x\<in>set s. 0 \<le> x / Max (set (all_stresses st))"
    by (auto simp add: valid_stresses_def)
  ultimately show ?thesis using s by simp
qed

lemma v_eqv_raw_closed:
  assumes "valid_stresses st" "key_set vol \<subseteq> key_set st" "0 < m"
  shows "v_eqv_raw m st vol = Inr (Fin (raw_sum m st vol))"
proof -
  let ?smax = "Max (set (all_stresses st))"
  from assms(1) have smax: "s_mises_max st = Inr ?smax" "?smax \<noteq> 0"
    by (simp_all add: s_mises_max_eq valid_stresses_def)
  have "\<forall>(e, v)\<in>set vol. \<exists>s. map_of st e = Some s \<and> s \<noteq> [] \<and> (\<forall>x\<in>set s. 0 \<le> x / ?smax)"
    using assms(1,2) stress_lookup by (force simp add: key_set_def)
  from v_eqv_loop_Fin [OF assms(3) smax(2) this, of 0] smax(1)
  show ?thesis by (simp add: v_eqv_raw_def raw_sum_def)
qed

lemma v_eqv_closed:
  assumes "valid_stresses st" "key_set vol \<subseteq> key_set st" "0 < m"
  shows "v_eqv m factor st vol =
           Inr (Fin (raw_sum m st vol * factor), Max (set (all_stresses st)))"
proof -
  let ?smax = "Max (set (all_stresses st))"
  from assms(1) have smax: "s_mises_max st = Inr ?smax" "?smax \<noteq> 0"
    by (simp_all add: s_mises_max_eq valid_stresses_def)
  have "\<forall>(e, v)\<in>set vol. \<exists>s. map_of st e = Some s \<and> s \<noteq> [] \<and> (\<forall>x\<in>set s. 0 \<le> x / ?smax)"
    using assms(1,2) stress_lookup by (force simp add: key_set_def)
  from v_eqv_loop_Fin [OF assms(3) smax(2) this, of 0] smax(1)
  show ?thesis by (simp add: v_eqv_def raw_sum_def)
qed

lemma sum_list_by_key:
  assumes "well_formed vol"
  shows "(\<Sum>(e, v)\<leftarrow>vol. F e v) = (\<Sum>e\<in>key_set vol. F e (volume_at vol e))"
proof -
  have "map (\<lambda>(e, v). F e v) vol = map (\<lambda>e. F e (volume_at vol e)) (map fst vol)"
    using assms by (auto simp add: well_formed_def volume_at_def)
  then have "(\<Sum>(e, v)\<leftarrow>vol. F e v) = sum_list (map (\<lambda>e. F e (volume_at vol e)) (map fst vol))"
    by (simp only:)
  also have "\<dots> = (\<Sum>e\<in>set (map fst vol). F e (volume_at vol e))"
    using assms unfolding well_formed_def by (rule sum_list_distinct_conv_sum_set)
  finally show ?thesis by (simp only: key_set_def)
qed

lemma contribution_nth:
  "contribution m smax s v =
     (\<Sum>i<length s. (s ! i / smax) powr m * (v / real (length s)))"
  unfolding contribution_def
  by (simp add: sum_list_sum_nth atLeast0LessThan)

subsection \<open>Bounds on the exact sum\<close>

lemma stress_at_valid:
  assumes "valid_stresses st" "e \<in> key_set st"
  shows "stress_at st e \<noteq> []" "set (stress_at st e) \<subseteq> set (all_stresses st)"
proof -
  from assms(2) obtain s where s: "map_of st e = Some s"
    by (auto simp add: key_set_def dest!: weak_map_of_SomeI)
  then have mem: "(e, s) \<in> set st" by (rule map_of_SomeD)
  with assms(1) have "s \<noteq> []" by (force simp add: valid_stresses_def)
  with s show "stress_at st e \<noteq> []" by (simp add: stress_at_def)
  from mem have "set s \<subseteq> set (all_stresses st)"
    by (force simp add: all_stresses_def)
  with s show "set (stress_at st e) \<subseteq> set (all_stresses st)" by (simp add: stress_at_def)
qed

lemma ratio_bounds:
  assumes "valid_stresses st" "x \<in> set (all_stresses st)"
  shows "0 \<le> x / Max (set (all_stresses st))" "x / Max (set (all_stresses st)) \<le> 1"
proof -
  from assms have "0 \<le> x" "x \<le> Max (set (all_stresses st))" "0 < Max (set (all_stresses st))"
    by (simp_all add: valid_stresses_def)
  then show "0 \<le> x / Max (set (all_stresses st))" "x / Max (set (all_stresses st)) \<le> 1"
    by simp_all
qed

lemma contribution_bounds:
  assumes "0 \<le> m" "s \<noteq> []" "\<forall>x\<in>set s. 0 \<le> x / smax \<and> x / smax \<le> 1" "0 \<le> v"
  shows "0 \<le> contribution m smax s v" "contribution m smax s v \<le> v"
proof -
  let ?n = "real (length s)"
  have n: "0 < ?n" using assms(2) by simp
  show "0 \<le> contribution m smax s v"
    unfolding contribution_def using assms(4) by (intro sum_list_nonneg) auto
  have "contribution m smax s v \<le> (\<Sum>x\<leftarrow>s. v / ?n)"
    unfolding contribution_def
  proof (rule sum_list_mono)
    fix x assume "x \<in> set s"
    with assms(3) have "(x / smax) powr m \<le> 1"
      using assms(1) by (intro powr_le1) auto
    moreover have "0 \<le> v / ?n" using assms(4) by simp
    ultimately show "(x / smax) powr m * (v / ?n) \<le> v / ?n"
      by (rule mult_left_le_one_le [rotated 2]) simp_all
  qed
  also have "\<dots> = v" using n by (simp add: sum_list_triv)
  finally show "contribution m smax s v \<le> v" .
qed

lemma raw_sum_bounds:
  assumes "valid_stresses st" "valid_volumes vol" "key_set vol \<subseteq> key_set st" "0 \<le> m"
  shows "0 \<le> raw_sum m st vol" "raw_sum m st vol \<le> sum_list (map snd vol)"
proof -
  let ?smax = "Max (set (all_stresses st))"
  have each: "0 \<le> contribution m ?smax (stress_at st e) v \<and>
              contribution m ?smax (stress_at st e) v \<le> v"
    if "(e, v) \<in> set vol" for e v
  proof -
    from that assms(3) have e: "e \<in> key_set st" by (force simp add: key_set_def)
    from that assms(2) have v: "0 \<le> v" by (force simp add: valid_volumes_def)
    have "\<forall>x\<in>set (stress_at st e). 0 \<le> x / ?smax \<and> x / ?smax \<le> 1"
      using stress_at_valid(2) [OF assms(1) e] ratio_bounds [OF assms(1)] by blast
    with contribution_bounds [OF assms(4) stress_at_valid(1) [OF assms(1) e] _ v]
    show ?thesis by blast
  qed
  show "0 \<le> raw_sum m st vol"
    unfolding raw_sum_def using each by (intro sum_list_nonneg) auto
  have "raw_sum m st vol \<le> (\<Sum>(e, v)\<leftarrow>vol. v)"
    unfolding raw_sum_def using each by (intro sum_list_mono) auto
  also have "(\<Sum>(e, v)\<leftarrow>vol. v) = sum_list (map snd vol)"
    by (simp add: case_prod_unfold)
  finally show "raw_sum m st vol \<le> sum_list (map snd vol)" .
qed

subsection \<open>Scaled stresses\<close>

lemma key_set_scale: "key_set (scale_stresses k st) = key_set st"
  by (force simp add: key_set_def scale_stresses_def)

lemma all_stresses_scale:
  "all_stresses (scale_stresses k st) = map (\<lambda>x. k * x) (all_stresses st)"
  by (induction st) (auto simp add: all_stresses_def scale_stresses_def)

lemma stress_at_scale:
  assumes "e \<in> key_set st"
  shows "stress_at (scale_stresses k st) e = map (\<lambda>x. k * x) (stress_at st e)"
proof -
  from assms obtain s where s: "map_of st e = Some s"
    by (auto simp add: key_set_def dest!: weak_map_of_SomeI)
  have "map_of (scale_stresses k st) e = map_option (map (\<lambda>x. k * x)) (map_of st e)"
    unfolding scale_stresses_def by (simp add: map_of_map)
  with s show ?thesis by (simp add: stress_at_def)
qed

lemma Max_scale:
  fixes k :: real
  assumes "0 < k" "xs \<noteq> []"
  shows "Max (set (map (\<lambda>x. k * x) xs)) = k * Max (set xs)"
proof -
  have "mono (\<lambda>x. k * x)" using assms(1) by (simp add: mono_def)
  from mono_Max_commute [OF this, of "set xs"] assms(2) show ?thesis by simp
qed

lemma all_stresses_nonempty:
  assumes "valid_stresses st"
  shows "all_stresses st \<noteq> []"
proof -
  from assms obtain e s rest where "st = (e, s) # rest" "s \<noteq> []"
    by (cases st) (auto simp add: valid_stresses_def)
  then show ?thesis by (simp add: all_stresses_def)
qed

lemma valid_stresses_scale:
  assumes "valid_stresses st" "0 < k"
  shows "valid_stresses (scale_stresses k st)"
proof -
  have wf: "well_formed (scale_stresses k st)"
    using assms(1) key_set_scale [of k st]
    by (simp add: valid_stresses_def well_formed_def scale_stresses_def case_prod_unfold comp_def)
  have ne: "scale_stresses k st \<noteq> []" "[] \<notin> set (map snd (scale_stresses k st))"
    using assms(1) by (auto simp add: valid_stresses_def scale_stresses_def)
  have pos: "\<forall>x\<in>set (all_stresses (scale_stresses k st)). 0 \<le> x"
    using assms by (auto simp add: all_stresses_scale valid_stresses_def)
  have "0 < Max (set (all_stresses (scale_stresses k st)))"
    using assms Max_scale [OF assms(2) all_stresses_nonempty [OF assms(1)]]
    by (simp add: all_stresses_scale valid_stresses_def)
  with wf ne pos show ?thesis by (simp add: valid_stresses_def)
qed

subsection \<open>Uniform stresses\<close>

lemma contribution_uniform:
  assumes "c \<noteq> 0" "s \<noteq> []" "\<forall>x\<in>set s. x = c"
  shows "contribution m c s v = v"
proof -
  have "(x / c) powr m * (v / real (length s)) = v / real (length s)"
    if "x \<in> set s" for x
    using that assms(1,3) by simp
  then have "map (\<lambda>x. (x / c) powr m * (v / real (length s))) s
      = map (\<lambda>x. v / real (length s)) s"
    by (intro map_cong refl)
  then have "contribution m c s v = (\<Sum>x\<leftarrow>s. v / real (length s))"
    by (simp only: contribution_def)
  also have "\<dots> = v" using assms(2) by (simp add: sum_list_triv)
  finally show ?thesis .
qed

lemma Max_uniform:
  assumes "valid_stresses st" "\<forall>x\<in>set (all_stresses st). x = c"
  shows "Max (set (all_stresses st)) = c"
proof -
  from all_stresses_nonempty [OF assms(1)] have "set (all_stresses st) \<noteq> {}" by simp
  then have "Max (set (all_stresses st)) \<in> set (all_stresses st)"
    by (intro Max_in) simp_all
  with assms(2) show ?thesis by blast
qed

lemma raw_sum_uniform:
  assumes "valid_stresses st" "key_set vol \<subseteq> key_set st"
    and "\<forall>x\<in>set (all_stresses st). x = c"
  shows "raw_sum m st vol = sum_list (map snd vol)"
proof -
  have smax: "Max (set (all_stresses st)) = c" by (rule Max_uniform [OF assms(1,3)])
  with assms(1) have c: "c \<noteq> 0" by (auto simp add: valid_stresses_def)
  have "contribution m c (stress_at st e) v = v" if "(e, v) \<in> set vol" for e v
  proof -
    from that assms(2) have e: "e \<in> key_set st" by (force simp add: key_set_def)
    from stress_at_valid [OF assms(1) e] assms(3)
    show ?thesis by (intro contribution_uniform [OF c]) auto
  qed
  then have "map (\<lambda>(e, v). contribution m c (stress_at st e) v) vol = map snd vol"
    by auto
  then show ?thesis by (simp only: raw_sum_def smax)
qed

subsection \<open>Exceptions\<close>

lemma v_eqv_loop_eq:
  "v_eqv_loop m smax st vol acc =
     (if key_set vol \<subseteq> key_set st
      then Inr (foldl (\<lambda>a (e, v). np_add a (v_eqv_e m smax (stress_at st e) v)) acc vol)
      else Inl KeyError)"
proof (induction vol arbitrary: acc)
  case Nil
  show ?case by (simp add: key_set_def)
next
  case (Cons p vol)
  obtain e v where p: "p = (e, v)" by (cases p)
  show ?case
  proof (cases "map_of st e")
    case None
    then have "e \<notin> key_set st" by (simp add: key_set_def map_of_eq_None_iff)
    with None p show ?thesis by (simp add: key_set_def)
  next
    case (Some s)
    then have "e \<in> key_set st"
      by (auto simp add: key_set_def dest!: map_of_SomeD intro: rev_image_eqI)
    with Some p Cons.IH show ?thesis by (simp add: key_set_def stress_at_def)
  qed
qed

text \<open>
  C3. The cells raise \<open>ValueError\<close> exactly when the stress mapping is empty or some
  element has no integration point, and \<open>KeyError\<close> exactly when, that not being the
  case, some element of the volume mapping has no stresses. In every other case,
  among them an empty volume mapping and elements that have stresses only, they
  raise nothing and yield a result. There is no other exception. With \<open>KeyError\<close> the
  first cell has already computed the maximum stress; \<open>v_eqv\<close> is not produced.
\<close>

theorem raised_exceptions:
  "(v_eqv m factor s_mises volume = Inl ValueError
      \<longleftrightarrow> s_mises = [] \<or> [] \<in> set (map snd s_mises)) \<and>
   (v_eqv m factor s_mises volume = Inl KeyError
      \<longleftrightarrow> s_mises \<noteq> [] \<and> [] \<notin> set (map snd s_mises) \<and>
          \<not> key_set volume \<subseteq> key_set s_mises) \<and>
   ((\<exists>r. v_eqv m factor s_mises volume = Inr r)
      \<longleftrightarrow> s_mises \<noteq> [] \<and> [] \<notin> set (map snd s_mises) \<and>
          key_set volume \<subseteq> key_set s_mises) \<and>
   (v_eqv m factor s_mises volume = Inl KeyError
      \<longrightarrow> s_mises_max s_mises = Inr (Max (set (all_stresses s_mises))))"
  by (simp add: v_eqv_def s_mises_max_eq v_eqv_loop_eq)

theorem raised_exceptions_witness:
  "v_eqv 30 8 [] [(1, 4)] = Inl ValueError \<and>
   v_eqv 30 8 [(1, [])] [(1, 4)] = Inl ValueError \<and>
   v_eqv 30 8 [(1, [10, 20])] [(1, 4), (2, 3)] = Inl KeyError \<and>
   s_mises_max [(1, [10, 20])] = Inr 20 \<and>
   (\<exists>r. v_eqv 30 8 [(1, [10, 20]), (2, [20])] [(1, 4)] = Inr r)"
  using raised_exceptions [of 30 8 "[]" "[(1, 4)]"]
    raised_exceptions [of 30 8 "[(1, [])]" "[(1, 4)]"]
    raised_exceptions [of 30 8 "[(1, [10, 20])]" "[(1, 4), (2, 3)]"]
    raised_exceptions [of 30 8 "[(1, [10, 20]), (2, [20])]" "[(1, 4)]"]
  by (simp add: key_set_def all_stresses_def)

theorem empty_volume_raises_nothing:
  "v_eqv 30 8 [(1, [10, 20])] [] = Inr (Fin 0, 20)"
  by (simp add: v_eqv_def s_mises_max_def)

subsection \<open>No check of the domain\<close>

lemma inf_of_sign_not_finite: "\<not> np_isfinite (inf_of_sign r)"
  by (simp add: inf_of_sign_def)

lemma np_mul_not_finite:
  assumes "\<not> np_isfinite a"
  shows "\<not> np_isfinite (np_mul a b)"
  using assms by (cases a; cases b) (simp_all add: inf_of_sign_not_finite)

lemma np_add_not_finite:
  assumes "\<not> np_isfinite a \<or> \<not> np_isfinite b"
  shows "\<not> np_isfinite (np_add a b)"
  using assms by (cases a; cases b) simp_all

lemma np_div_zero_not_finite: "\<not> np_isfinite (np_div x 0)"
  by (simp add: np_div_def)

lemma np_power_not_finite:
  assumes "\<not> np_isfinite a" "0 < m"
  shows "\<not> np_isfinite (np_power a m)"
  using assms by (cases a) (simp_all add: np_power_def)

lemma foldl_np_add_not_finite:
  assumes "\<not> np_isfinite a \<or> xs \<noteq> []" "\<forall>x\<in>set xs. \<not> np_isfinite x"
  shows "\<not> np_isfinite (foldl np_add a xs)"
  using assms
proof (induction xs arbitrary: a)
  case Nil
  then show ?case by simp
next
  case (Cons x xs)
  then have "\<not> np_isfinite (np_add a x)" by (intro np_add_not_finite) simp
  with Cons show ?case by simp
qed

lemma v_eqv_e_zero_max:
  assumes "0 < m" "s \<noteq> []"
  shows "\<not> np_isfinite (v_eqv_e m 0 s v)"
proof -
  have "\<not> np_isfinite (np_mul (np_power (np_div x 0) m) b)" for x b
    using assms(1) by (intro np_mul_not_finite np_power_not_finite np_div_zero_not_finite)
  with assms(2) show ?thesis
    unfolding v_eqv_e_def np_sum_def Let_def
    by (intro foldl_np_add_not_finite) simp_all
qed

lemma loop_zero_max:
  assumes "0 < m" "\<forall>(e, v)\<in>set vol. stress_at st e \<noteq> []"
    and "\<not> np_isfinite acc \<or> vol \<noteq> []"
  shows "\<not> np_isfinite
           (foldl (\<lambda>a (e, v). np_add a (v_eqv_e m 0 (stress_at st e) v)) acc vol)"
  using assms(2,3)
proof (induction vol arbitrary: acc)
  case Nil
  then show ?case by simp
next
  case (Cons p vol)
  obtain e v where p: "p = (e, v)" by (cases p)
  with Cons.prems have "stress_at st e \<noteq> []" by simp
  then have "\<not> np_isfinite (np_add acc (v_eqv_e m 0 (stress_at st e) v))"
    using assms(1) by (intro np_add_not_finite) (simp add: v_eqv_e_zero_max)
  with Cons p show ?case by simp
qed

lemma stress_at_nonempty:
  assumes "[] \<notin> set (map snd st)" "e \<in> key_set st"
  shows "stress_at st e \<noteq> []"
proof -
  from assms(2) obtain s where s: "map_of st e = Some s"
    by (auto simp add: key_set_def dest!: weak_map_of_SomeI)
  then have "(e, s) \<in> set st" by (rule map_of_SomeD)
  with assms(1) have "s \<noteq> []" by force
  with s show ?thesis by (simp add: stress_at_def)
qed

text \<open>
  C4. The cells check no domain and raise no \<open>DomainError\<close>. When the stress mapping
  is non-empty, every element has at least one integration point and every element of
  the volume mapping has stresses, they yield a result whatever the signs of the
  stresses, of the volumes and of the modulus; with a maximum stress of zero, a
  positive modulus and a non-empty volume mapping that result is not a finite number.
  An element without integration points raises \<open>ValueError\<close>.
\<close>

theorem no_domain_check:
  "([] \<in> set (map snd s_mises) \<longrightarrow> v_eqv m factor s_mises volume = Inl ValueError) \<and>
   (s_mises \<noteq> [] \<and> [] \<notin> set (map snd s_mises) \<and> key_set volume \<subseteq> key_set s_mises \<longrightarrow>
      (\<exists>x. v_eqv m factor s_mises volume = Inr (x, Max (set (all_stresses s_mises))) \<and>
           (Max (set (all_stresses s_mises)) = 0 \<and> 0 < m \<and> volume \<noteq> [] \<longrightarrow>
              \<not> np_isfinite x)))"
proof (intro conjI impI)
  assume "[] \<in> set (map snd s_mises)"
  then show "v_eqv m factor s_mises volume = Inl ValueError"
    by (simp add: v_eqv_def s_mises_max_eq)
next
  assume a: "s_mises \<noteq> [] \<and> [] \<notin> set (map snd s_mises) \<and> key_set volume \<subseteq> key_set s_mises"
  let ?smax = "Max (set (all_stresses s_mises))"
  let ?raw = "foldl (\<lambda>a (e, v). np_add a (v_eqv_e m ?smax (stress_at s_mises e) v)) (Fin 0) volume"
  from a have res: "v_eqv m factor s_mises volume = Inr (np_mul ?raw (Fin factor), ?smax)"
    by (simp add: v_eqv_def s_mises_max_eq v_eqv_loop_eq)
  have "\<not> np_isfinite (np_mul ?raw (Fin factor))" if z: "?smax = 0 \<and> 0 < m \<and> volume \<noteq> []"
  proof -
    have "\<forall>(e, v)\<in>set volume. stress_at s_mises e \<noteq> []"
      using a stress_at_nonempty [of s_mises] by (force simp add: key_set_def)
    with z loop_zero_max [of m volume s_mises "Fin 0"] have "\<not> np_isfinite ?raw" by simp
    then show ?thesis by (rule np_mul_not_finite)
  qed
  with res show "\<exists>x. v_eqv m factor s_mises volume = Inr (x, ?smax) \<and>
      (?smax = 0 \<and> 0 < m \<and> volume \<noteq> [] \<longrightarrow> \<not> np_isfinite x)"
    by blast
qed

theorem no_domain_check_witness:
  "v_eqv 30 8 [(1, [])] [(1, 4)] = Inl ValueError \<and>
   (\<exists>x. v_eqv 30 8 [(1, [0, 0])] [(1, 4)] = Inr (x, 0) \<and> \<not> np_isfinite x) \<and>
   (\<exists>x. v_eqv (- 2) (- 8) [(1, [- 10, 20])] [(1, - 4)] = Inr (x, 20))"
  using no_domain_check [of "[(1, [])]" 30 8 "[(1, 4)]"]
    no_domain_check [of "[(1, [0, 0])]" 30 8 "[(1, 4)]"]
    no_domain_check [of "[(1, [- 10, 20])]" "- 2" "- 8" "[(1, - 4)]"]
  by (simp add: key_set_def all_stresses_def)

theorem negative_stress_raises_nothing:
  "v_eqv 30 8 [(1, [- 10, 20])] [(1, 4)] = Inr (Fin (16 * (1 + (1 / 2) ^ 30)), 20)"
  by (simp add: v_eqv_def s_mises_max_def v_eqv_e_def np_div_def np_power_def np_sum_def
      is_integer_def)

subsection \<open>Elements with stresses only\<close>

lemma key_set_append: "key_set (st @ [(e, s)]) = insert e (key_set st)"
  by (simp add: key_set_def)

lemma all_stresses_append: "all_stresses (st @ [(e, s)]) = all_stresses st @ s"
  by (simp add: all_stresses_def)

lemma stress_at_append:
  assumes "e \<in> key_set st"
  shows "stress_at (st @ [(e', s')]) e = stress_at st e"
proof -
  from assms have "e \<in> dom (map_of st)"
    by (simp add: key_set_def dom_map_of_conv_image_fst)
  then show ?thesis by (simp add: stress_at_def map_add_dom_app_simps)
qed

lemma Max_append:
  assumes "valid_stresses st" "s' \<noteq> []" "Max (set (all_stresses st)) < Max (set s')"
  shows "Max (set (all_stresses (st @ [(e', s')]))) = Max (set s')"
proof -
  from all_stresses_nonempty [OF assms(1)] assms(2)
  have "Max (set (all_stresses st) \<union> set s') = max (Max (set (all_stresses st))) (Max (set s'))"
    by (intro Max_Un) simp_all
  with assms(3) show ?thesis by (simp add: all_stresses_append)
qed

lemma valid_stresses_append:
  assumes "valid_stresses st" "e' \<notin> key_set st" "s' \<noteq> []" "\<forall>x\<in>set s'. 0 \<le> x"
    and "Max (set (all_stresses st)) < Max (set s')"
  shows "valid_stresses (st @ [(e', s')])"
proof -
  have "0 < Max (set (all_stresses (st @ [(e', s')])))"
    using assms(1,5) Max_append [OF assms(1,3,5)] by (simp add: valid_stresses_def)
  with assms(1-4) show ?thesis
    by (auto simp add: valid_stresses_def well_formed_def key_set_def all_stresses_append)
qed

lemma contribution_rescale:
  assumes "old \<noteq> 0"
  shows "contribution m new s v = contribution m old s v * (old / new) powr m"
proof -
  have "(x / new) powr m * (v / real (length s))
      = (x / old) powr m * (v / real (length s)) * (old / new) powr m" for x
  proof -
    have "x / new = (x / old) * (old / new)" using assms by simp
    then have "(x / new) powr m = (x / old) powr m * (old / new) powr m"
      by (simp only: powr_mult)
    then show ?thesis by simp
  qed
  then have "map (\<lambda>x. (x / new) powr m * (v / real (length s))) s
      = map (\<lambda>x. (x / old) powr m * (v / real (length s)) * (old / new) powr m) s"
    by (intro map_cong refl)
  then have "contribution m new s v
      = (\<Sum>x\<leftarrow>s. (x / old) powr m * (v / real (length s)) * (old / new) powr m)"
    unfolding contribution_def by (rule arg_cong)
  also have "\<dots> = contribution m old s v * (old / new) powr m"
    unfolding contribution_def by (rule sum_list_mult_const)
  finally show ?thesis .
qed

lemma raw_sum_append:
  assumes "valid_stresses st" "key_set vol \<subseteq> key_set st"
    and "s' \<noteq> []" "Max (set (all_stresses st)) < Max (set s')"
  shows "raw_sum m (st @ [(e', s')]) vol
           = raw_sum m st vol * (Max (set (all_stresses st)) / Max (set s')) powr m"
proof -
  let ?old = "Max (set (all_stresses st))" and ?new = "Max (set s')"
  from assms(1) have old: "?old \<noteq> 0" by (simp add: valid_stresses_def)
  have "contribution m ?new (stress_at (st @ [(e', s')]) e) v
      = contribution m ?old (stress_at st e) v * (?old / ?new) powr m"
    if "(e, v) \<in> set vol" for e v
  proof -
    from that assms(2) have "e \<in> key_set st" by (force simp add: key_set_def)
    then have "stress_at (st @ [(e', s')]) e = stress_at st e" by (rule stress_at_append)
    with contribution_rescale [OF old, of m ?new "stress_at st e" v]
    show ?thesis by (simp only:)
  qed
  then have "map (\<lambda>(e, v). contribution m ?new (stress_at (st @ [(e', s')]) e) v) vol
      = map (\<lambda>(e, v). contribution m ?old (stress_at st e) v * (?old / ?new) powr m) vol"
    by auto
  then have "raw_sum m (st @ [(e', s')]) vol
      = (\<Sum>(e, v)\<leftarrow>vol. contribution m ?old (stress_at st e) v * (?old / ?new) powr m)"
    by (simp only: raw_sum_def Max_append [OF assms(1,3,4)])
  also have "\<dots> = (\<Sum>p\<leftarrow>vol. contribution m ?old (stress_at st (fst p)) (snd p)
                           * (?old / ?new) powr m)"
    by (simp only: case_prod_unfold)
  also have "\<dots> = (\<Sum>p\<leftarrow>vol. contribution m ?old (stress_at st (fst p)) (snd p))
                           * (?old / ?new) powr m"
    by (rule sum_list_mult_const)
  also have "\<dots> = raw_sum m st vol * (?old / ?new) powr m"
    by (simp only: raw_sum_def case_prod_unfold)
  finally show ?thesis .
qed

text \<open>
  C10. Elements that have stresses but no volume raise nothing: when the keys of the
  volume mapping are among the keys of the stress mapping (in particular a strict
  subset of them) the cells yield a result; the sum runs over the elements of the
  volume mapping only, while the maximum stress is taken over all elements of the
  stress mapping. Adding an element with stresses only, one of them above the previous
  maximum, changes the result: the maximum becomes the new one and \<open>v_eqv\<close> is
  multiplied by \<open>(old maximum / new maximum) ^ m\<close>.
\<close>

theorem stress_only_elements:
  assumes "valid_stresses s_mises" and "valid_volumes volume"
    and "key_set volume \<subseteq> key_set s_mises" and "0 < m"
  shows "v_eqv m factor s_mises volume =
           Inr (Fin (factor *
                  (\<Sum>e\<in>key_set volume.
                     \<Sum>i<length (stress_at s_mises e).
                       (stress_at s_mises e ! i / Max (set (all_stresses s_mises))) powr m
                         * (volume_at volume e / real (length (stress_at s_mises e))))),
                Max (set (all_stresses s_mises))) \<and>
         (\<forall>e' s'. e' \<notin> key_set s_mises \<and> s' \<noteq> [] \<and> (\<forall>x\<in>set s'. 0 \<le> x) \<and>
              Max (set (all_stresses s_mises)) < Max (set s') \<longrightarrow>
            v_eqv m factor (s_mises @ [(e', s')]) volume
              = Inr (Fin (raw_sum m s_mises volume
                          * (Max (set (all_stresses s_mises)) / Max (set s')) powr m * factor),
                     Max (set s')) \<and>
            v_eqv m factor (s_mises @ [(e', s')]) volume \<noteq> v_eqv m factor s_mises volume)"
proof (intro conjI allI impI)
  from assms(2) have wf: "well_formed volume" by (simp add: valid_volumes_def)
  have "raw_sum m s_mises volume =
      (\<Sum>e\<in>key_set volume.
         contribution m (Max (set (all_stresses s_mises))) (stress_at s_mises e) (volume_at volume e))"
    unfolding raw_sum_def by (rule sum_list_by_key [OF wf])
  then show "v_eqv m factor s_mises volume =
           Inr (Fin (factor *
                  (\<Sum>e\<in>key_set volume.
                     \<Sum>i<length (stress_at s_mises e).
                       (stress_at s_mises e ! i / Max (set (all_stresses s_mises))) powr m
                         * (volume_at volume e / real (length (stress_at s_mises e))))),
                Max (set (all_stresses s_mises)))"
    by (simp add: v_eqv_closed [OF assms(1,3,4)] contribution_nth mult.commute)
next
  fix e' s'
  assume a: "e' \<notin> key_set s_mises \<and> s' \<noteq> [] \<and> (\<forall>x\<in>set s'. 0 \<le> x) \<and>
              Max (set (all_stresses s_mises)) < Max (set s')"
  then have v': "valid_stresses (s_mises @ [(e', s')])"
    using valid_stresses_append [OF assms(1)] by blast
  have keys: "key_set volume \<subseteq> key_set (s_mises @ [(e', s')])"
    using assms(3) by (auto simp add: key_set_append)
  from a have new: "Max (set (all_stresses (s_mises @ [(e', s')]))) = Max (set s')"
    using Max_append [OF assms(1)] by blast
  from a have raw: "raw_sum m (s_mises @ [(e', s')]) volume
      = raw_sum m s_mises volume * (Max (set (all_stresses s_mises)) / Max (set s')) powr m"
    using raw_sum_append [OF assms(1,3)] by blast
  show res: "v_eqv m factor (s_mises @ [(e', s')]) volume
      = Inr (Fin (raw_sum m s_mises volume
                  * (Max (set (all_stresses s_mises)) / Max (set s')) powr m * factor),
             Max (set s'))"
    using v_eqv_closed [OF v' keys assms(4), of factor] by (simp only: new raw)
  from a show "v_eqv m factor (s_mises @ [(e', s')]) volume \<noteq> v_eqv m factor s_mises volume"
    by (simp add: res v_eqv_closed [OF assms(1,3,4)])
qed

theorem stress_only_elements_witness:
  "valid_stresses [(1, [10, 20]), (2, [20])] \<and> valid_volumes [(1, 4)] \<and>
   key_set [(1, 4 :: real)] \<subset> key_set [(1, [10, 20 :: real]), (2, [20])] \<and>
   v_eqv 1 8 [(1, [10, 20]), (2, [20])] [(1, 4)] = Inr (Fin 24, 20) \<and>
   v_eqv 1 8 ([(1, [10, 20]), (2, [20])] @ [(3, [40])]) [(1, 4)] = Inr (Fin 12, 40) \<and>
   v_eqv 1 8 ([(1, [10, 20]), (2, [20])] @ [(3, [40])]) [(1, 4)]
     \<noteq> v_eqv 1 8 [(1, [10, 20]), (2, [20])] [(1, 4)]"
  using stress_only_elements [of "[(1, [10, 20]), (2, [20])]" "[(1, 4)]" 1 8]
  by (simp add: valid_stresses_def valid_volumes_def well_formed_def key_set_def
      all_stresses_def v_eqv_def s_mises_max_def v_eqv_e_def np_div_def np_power_def
      np_sum_def psubset_eq)

section \<open>The cells in floating-point arithmetic\<close>

subsection \<open>The cells in any arithmetic\<close>

lemma fl_v_eqv_loop_eq:
  "fl_v_eqv_loop A m smax st vol acc =
     (if key_set vol \<subseteq> key_set st
      then Inr (foldl (\<lambda>a (e, v). fl_add (rnd A) a (fl_v_eqv_e A m smax (stress_at st e) v))
                  acc vol)
      else Inl KeyError)"
proof (induction vol arbitrary: acc)
  case Nil
  show ?case by (simp add: key_set_def)
next
  case (Cons p vol)
  obtain e v where p: "p = (e, v)" by (cases p)
  show ?case
  proof (cases "map_of st e")
    case None
    then have "e \<notin> key_set st" by (simp add: key_set_def map_of_eq_None_iff)
    with None p show ?thesis by (simp add: key_set_def)
  next
    case (Some s)
    then have "e \<in> key_set st"
      by (auto simp add: key_set_def dest!: map_of_SomeD intro: rev_image_eqI)
    with Some p Cons.IH show ?thesis by (simp add: key_set_def stress_at_def)
  qed
qed

lemma foldl_cong_set:
  assumes "\<And>a x. x \<in> set xs \<Longrightarrow> f a x = g a x"
  shows "foldl f a xs = foldl g a xs"
  using assms by (induction xs arbitrary: a) simp_all

lemma fl_v_eqv_raw_valid:
  assumes "valid_stresses st" "key_set vol \<subseteq> key_set st"
  shows "fl_v_eqv_raw A m st vol =
           Inr (foldl (\<lambda>a (e, v). fl_add (rnd A) a
                         (fl_v_eqv_e A m (Max (set (all_stresses st))) (stress_at st e) v))
                  (Fin 0) vol)"
  using assms
  by (simp add: fl_v_eqv_raw_def s_mises_max_eq valid_stresses_def fl_v_eqv_loop_eq)

lemma fl_v_eqv_valid:
  assumes "valid_stresses st" "key_set vol \<subseteq> key_set st"
  shows "fl_v_eqv A m factor st vol =
           Inr (fl_mul (rnd A)
                  (foldl (\<lambda>a (e, v). fl_add (rnd A) a
                            (fl_v_eqv_e A m (Max (set (all_stresses st))) (stress_at st e) v))
                     (Fin 0) vol)
                  (Fin factor),
                Max (set (all_stresses st)))"
  using assms
  by (simp add: fl_v_eqv_def s_mises_max_eq valid_stresses_def fl_v_eqv_loop_eq)

text \<open>
  The instance \<open>exact\<close> is the embedding over the real numbers.
\<close>

lemma exact_sel:
  "rnd exact = Fin" "pw exact = (\<lambda>x. np_power (Fin x))" "vsum exact = np_sum"
  by (simp_all add: exact_def)

lemma fl_div_exact: "fl_div Fin x y = np_div x y"
  by (simp add: fl_div_def np_div_def)

lemma fl_mul_exact: "fl_mul Fin a b = np_mul a b"
  by (cases a; cases b) simp_all

lemma fl_add_exact: "fl_add Fin a b = np_add a b"
  by (cases a; cases b) simp_all

lemma fl_pow_exact: "fl_pow (\<lambda>x. np_power (Fin x)) a m = np_power a m"
  by (cases a) (auto simp add: fl_pow_def np_power_def)

lemma fl_v_eqv_e_exact: "fl_v_eqv_e exact m smax s v = v_eqv_e m smax s v"
  by (simp add: fl_v_eqv_e_def v_eqv_e_def exact_sel fl_div_exact fl_mul_exact fl_pow_exact)

lemma fl_v_eqv_loop_exact:
  "fl_v_eqv_loop exact m smax st vol acc = v_eqv_loop m smax st vol acc"
  by (induction vol arbitrary: acc)
    (auto simp add: fl_v_eqv_e_exact exact_sel fl_add_exact split: option.splits)

lemma fl_v_eqv_exact: "fl_v_eqv exact m factor st vol = v_eqv m factor st vol"
  by (simp add: fl_v_eqv_def v_eqv_def fl_v_eqv_loop_exact exact_sel fl_mul_exact
      split: sum.splits)

lemma fl_v_eqv_raw_exact: "fl_v_eqv_raw exact m st vol = v_eqv_raw m st vol"
  by (simp add: fl_v_eqv_raw_def v_eqv_raw_def fl_v_eqv_loop_exact split: sum.splits)

subsection \<open>Rounding to binary64\<close>

lemma binary64_sel:
  "rnd binary64 = b64" "pw binary64 = b64_pow" "vsum binary64 = foldl (fl_add b64) (Fin 0)"
  by (simp_all add: binary64_def)

lemma b64_eval:
  assumes "2 powi e \<le> \<bar>x\<bar>" "\<bar>x\<bar> < 2 powi (e + 1)"
  shows "b64 x = b64_at e x"
proof -
  have pos: "0 < \<bar>x\<bar>" using assms(1) by (smt (verit) zero_less_power_int)
  have "2 powr (real_of_int e + 1) = 2 powi (e + 1)"
    using powr_real_of_int' [of 2 "e + 1"] by simp
  then have "\<lfloor>log 2 \<bar>x\<bar>\<rfloor> = e"
    using assms pos by (simp add: floor_log_eq_powr_iff powr_real_of_int')
  with pos show ?thesis by (simp add: b64_def)
qed

lemmas b64_simps = b64_at_def rne_def power_int_minus Let_def

lemma b64_zero: "b64 0 = Fin 0"
  by (simp add: b64_def)

lemma rne_of_int: "rne (of_int n) = n"
  by (simp add: rne_def)

lemma rne_near: "\<bar>of_int (rne t) - t\<bar> \<le> 1 / 2"
proof -
  have "of_int \<lfloor>t\<rfloor> \<le> t" "t < of_int \<lfloor>t\<rfloor> + 1" by linarith+
  then show ?thesis by (auto simp add: rne_def Let_def)
qed

lemma rne_bound:
  assumes "\<bar>t\<bar> < of_int N"
  shows "\<bar>rne t\<bar> \<le> N"
proof -
  from rne_near [of t] assms have "\<bar>of_int (rne t) :: real\<bar> < of_int N + 1" by linarith
  then have "\<bar>rne t\<bar> < N + 1" by (metis of_int_1 of_int_abs of_int_add of_int_less_iff)
  then show ?thesis by simp
qed

lemma log2_bounds:
  assumes "x \<noteq> 0"
  shows "2 powi \<lfloor>log 2 \<bar>x\<bar>\<rfloor> \<le> \<bar>x\<bar>" "\<bar>x\<bar> < 2 powi (\<lfloor>log 2 \<bar>x\<bar>\<rfloor> + 1)"
proof -
  from assms have pos: "0 < \<bar>x\<bar>" by simp
  have "2 powr (real_of_int \<lfloor>log 2 \<bar>x\<bar>\<rfloor>) \<le> \<bar>x\<bar> \<and>
        \<bar>x\<bar> < 2 powr (real_of_int (\<lfloor>log 2 \<bar>x\<bar>\<rfloor> + 1))"
    using floor_log_eq_powr_iff [OF pos, of 2 "\<lfloor>log 2 \<bar>x\<bar>\<rfloor>"] by simp
  then show "2 powi \<lfloor>log 2 \<bar>x\<bar>\<rfloor> \<le> \<bar>x\<bar>" "\<bar>x\<bar> < 2 powi (\<lfloor>log 2 \<bar>x\<bar>\<rfloor> + 1)"
    by (simp_all only: powr_real_of_int' [of 2, simplified])
qed

lemma powi_mono2: "a \<le> b \<Longrightarrow> (2::real) powi a \<le> 2 powi b"
  by (rule power_int_increasing) simp_all

lemma powi_less_exp:
  assumes "(2::real) powi a < 2 powi b"
  shows "a < b"
proof (rule ccontr)
  assume "\<not> a < b"
  then have "(2::real) powi b \<le> 2 powi a" by (intro powi_mono2) simp
  with assms show False by simp
qed

lemma powi_split: "(2::real) powi (a + b) = 2 powi a * 2 powi b"
  by (simp add: power_int_add)

lemma powi_nonneg_int:
  assumes "0 \<le> j"
  shows "(2::real) powi j = of_int (2 ^ nat j)"
  using assms by (simp add: power_int_def)

text \<open>
  A number with at most 53 significant bits, within the range of the exponents, is a double.
\<close>

lemma b64_exact:
  assumes y: "y = of_int n * 2 powi k" and n: "\<bar>n\<bar> < 2 ^ 53" and k: "- 1074 \<le> k"
    and fin: "\<bar>y\<bar> < 2 powi 1024"
  shows "b64 y = Fin y"
proof (cases "y = 0")
  case True
  then show ?thesis by (simp add: b64_def)
next
  case False
  define e where "e = max \<lfloor>log 2 \<bar>y\<bar>\<rfloor> (- 1022)"
  define j where "j = k - (e - 52)"
  have "\<bar>y\<bar> < 2 powi (k + 53)"
  proof -
    have "\<bar>y\<bar> = of_int \<bar>n\<bar> * 2 powi k" by (simp add: y abs_mult)
    also have "\<dots> < of_int (2 ^ 53) * 2 powi k"
      using n by (intro mult_strict_right_mono) simp_all
    also have "\<dots> = 2 powi (k + 53)" by (simp add: power_int_add)
    finally show ?thesis .
  qed
  with log2_bounds(1) [OF False] have "2 powi \<lfloor>log 2 \<bar>y\<bar>\<rfloor> < (2::real) powi (k + 53)"
    by linarith
  then have "\<lfloor>log 2 \<bar>y\<bar>\<rfloor> < k + 53"
    by (rule powi_less_exp)
  with k have "0 \<le> j" by (simp add: j_def e_def)
  have "y / 2 powi (e - 52) = of_int n * 2 powi j"
    by (simp add: y j_def power_int_diff)
  also have "\<dots> = of_int (n * 2 ^ nat j)"
    using \<open>0 \<le> j\<close> by (simp add: powi_nonneg_int)
  finally have "rne (y / 2 powi (e - 52)) = n * 2 ^ nat j"
    by (simp only: rne_of_int)
  moreover have "of_int (n * 2 ^ nat j) * 2 powi (e - 52) = y"
  proof -
    have "of_int (n * 2 ^ nat j) * 2 powi (e - 52)
        = of_int n * ((2::real) powi j * 2 powi (e - 52))"
      using \<open>0 \<le> j\<close> by (simp add: powi_nonneg_int)
    also have "(2::real) powi j * 2 powi (e - 52) = 2 powi (j + (e - 52))"
      by (simp add: power_int_add)
    also have "j + (e - 52) = k" by (simp add: j_def)
    finally show ?thesis by (simp add: y)
  qed
  ultimately show ?thesis
    using False fin by (simp add: b64_def b64_at_def e_def [symmetric] Let_def)
qed

lemma b64_idem:
  assumes "b64 x = Fin y"
  shows "b64 y = Fin y"
proof (cases "x = 0")
  case True
  with assms show ?thesis by (simp add: b64_def)
next
  case False
  define e where "e = max \<lfloor>log 2 \<bar>x\<bar>\<rfloor> (- 1022)"
  define q :: real where "q = 2 powi (e - 52)"
  define n where "n = rne (x / q)"
  have q: "0 < q" by (simp add: q_def)
  from assms False have y: "y = of_int n * q" and fin: "\<bar>y\<bar> < 2 powi 1024"
    by (auto simp add: b64_def b64_at_def Let_def e_def [symmetric] q_def [symmetric]
        n_def [symmetric] split: if_splits)
  have "\<bar>x\<bar> < 2 powi (\<lfloor>log 2 \<bar>x\<bar>\<rfloor> + 1)" by (rule log2_bounds(2) [OF False])
  also have "\<dots> \<le> 2 powi (e + 1)" by (intro powi_mono2) (simp add: e_def)
  also have "\<dots> = of_int (2 ^ 53) * q"
    by (simp add: q_def power_int_diff power_int_add)
  finally have "\<bar>x / q\<bar> < of_int (2 ^ 53)"
    using q by (simp add: abs_divide pos_divide_less_eq)
  then have n: "\<bar>n\<bar> \<le> 2 ^ 53" unfolding n_def by (rule rne_bound)
  have k: "- 1074 \<le> e - 52" by (simp add: e_def)
  show ?thesis
  proof (cases "\<bar>n\<bar> < 2 ^ 53")
    case True
    from y have "y = of_int n * 2 powi (e - 52)" by (simp add: q_def)
    from b64_exact [OF this True k fin] show ?thesis .
  next
    case False
    with n have "\<bar>n\<bar> = 2 ^ 53" by simp
    then have "n = 2 ^ 53 \<or> n = - (2 ^ 53)" by linarith
    then have "y = of_int (if 0 < n then 1 else - 1) * 2 powi (e + 1)"
      by (auto simp add: y q_def power_int_diff power_int_add)
    from b64_exact [OF this _ _ fin] show ?thesis by (simp add: e_def)
  qed
qed

lemma b64_one: "b64 1 = Fin 1"
  using b64_eval [of 0 1] by (simp add: b64_simps)

lemma rounds_to_itself_b64: "rounds_to_itself b64"
  using b64_one b64_idem by (auto simp add: rounds_to_itself_def)

lemma rnd_binary64_itself: "rounds_to_itself (rnd binary64)"
  by (simp add: binary64_sel rounds_to_itself_b64)

lemma dvd_two_power:
  fixes d :: nat
  assumes "d dvd 2 ^ n"
  shows "\<exists>j\<le>n. d = 2 ^ j"
  using assms
proof (induction n arbitrary: d)
  case 0
  then show ?case by simp
next
  case (Suc n)
  show ?case
  proof (cases "even d")
    case True
    then obtain d' where d': "d = 2 * d'" by (auto elim: evenE)
    with Suc.prems have "d' dvd 2 ^ n" by simp
    from Suc.IH [OF this] obtain j where "j \<le> n" "d' = 2 ^ j" by blast
    with d' have "Suc j \<le> Suc n" "d = 2 ^ Suc j" by simp_all
    then show ?thesis by blast
  next
    case False
    then have "coprime d 2" by simp
    with Suc.prems have "d dvd 2 ^ n" by (simp add: coprime_dvd_mult_right_iff)
    from Suc.IH [OF this] show ?thesis using le_Suc_eq by blast
  qed
qed

lemma b64_fraction:
  fixes p q :: nat
  assumes "q dvd 2 ^ 1074" "p < 2 ^ 53"
  shows "b64 (real p / real q) = Fin (real p / real q)"
proof -
  from dvd_two_power [OF assms(1)] obtain j where j: "j \<le> 1074" "q = 2 ^ j" by blast
  have y: "real p / real q = of_int (int p) * 2 powi (- int j)"
    by (simp add: j(2) power_int_minus field_simps)
  have n: "\<bar>int p\<bar> < 2 ^ 53" using assms(2) by simp
  have k: "- 1074 \<le> - int j" using j(1) by simp
  have "real p / real q \<le> real p" using j(2) by (simp add: field_simps mult_le_cancel_left1)
  also have "\<dots> < 2 ^ 53" using assms(2) by (metis of_nat_less_iff of_nat_numeral of_nat_power)
  also have "\<dots> \<le> (2::real) powi 1024" by simp
  finally have "\<bar>real p / real q\<bar> < 2 powi 1024" by simp
  from b64_exact [OF y n k this] show ?thesis .
qed

lemma b64_numeral_fraction:
  assumes "numeral q dvd (2::nat) ^ 1074" "numeral p < (2::nat) ^ 53"
  shows "b64 (numeral p / numeral q) = Fin (numeral p / numeral q)"
  using b64_fraction [OF assms] by simp

lemma b64_numeral:
  assumes "numeral p < (2::nat) ^ 53"
  shows "b64 (numeral p) = Fin (numeral p)"
  using b64_fraction [of 1 "numeral p"] assms by simp

lemma b64_one_over:
  assumes "numeral q dvd (2::nat) ^ 1074"
  shows "b64 (1 / numeral q) = Fin (1 / numeral q)"
  using b64_fraction [of "numeral q" 1] assms by simp

lemmas b64_exact_simps = b64_numeral_fraction b64_numeral b64_one_over b64_one

lemmas b64_cells =
  fl_v_eqv_def fl_v_eqv_raw_def s_mises_max_def fl_v_eqv_e_def binary64_sel fl_div_def
  fl_pow_def b64_pow_def np_power_def b64_exact_simps Let_def power_divide

text \<open>
  Rounding is monotone on the non-negative numbers.
\<close>

lemma rne_cases: "rne t = \<lfloor>t\<rfloor> \<or> rne t = \<lfloor>t\<rfloor> + 1"
  by (simp add: rne_def Let_def)

lemma rne_mono:
  assumes "t \<le> u"
  shows "rne t \<le> rne u"
proof (cases "\<lfloor>t\<rfloor> = \<lfloor>u\<rfloor>")
  case True
  with assms show ?thesis by (auto simp add: rne_def Let_def)
next
  case False
  with assms have "\<lfloor>t\<rfloor> + 1 \<le> \<lfloor>u\<rfloor>" using floor_mono [OF assms] by linarith
  with rne_cases [of t] rne_cases [of u] show ?thesis by linarith
qed

lemma rne_nonneg: "0 \<le> t \<Longrightarrow> 0 \<le> rne t"
  using rne_mono [of 0 t] rne_of_int [of 0] by simp

lemma b64_pos:
  assumes "0 < x"
  shows "b64 x = (if 2 powi 1024 \<le> b64_val x then PInf else Fin (b64_val x))"
    and "0 \<le> b64_val x"
proof -
  show nonneg: "0 \<le> b64_val x"
    unfolding b64_val_def using assms by (intro mult_nonneg_nonneg) (simp_all add: rne_nonneg)
  then show "b64 x = (if 2 powi 1024 \<le> b64_val x then PInf else Fin (b64_val x))"
    using assms by (simp add: b64_def b64_at_def b64_val_def Let_def)
qed

lemma b64_val_upper:
  assumes "0 < x"
  shows "b64_val x \<le> 2 powi (max \<lfloor>log 2 \<bar>x\<bar>\<rfloor> (- 1022) + 1)"
proof -
  define e where "e = max \<lfloor>log 2 \<bar>x\<bar>\<rfloor> (- 1022)"
  define q :: real where "q = 2 powi (e - 52)"
  have q: "0 < q" by (simp add: q_def)
  from assms have "x \<noteq> 0" by simp
  from log2_bounds(2) [OF this] have "\<bar>x\<bar> < 2 powi (\<lfloor>log 2 \<bar>x\<bar>\<rfloor> + 1)" .
  also have "\<dots> \<le> 2 powi (e + 1)" by (intro powi_mono2) (simp add: e_def)
  also have "\<dots> = of_int (2 ^ 53) * q" by (simp add: q_def power_int_diff power_int_add)
  finally have "\<bar>x / q\<bar> < of_int (2 ^ 53)" using q by (simp add: abs_divide pos_divide_less_eq)
  then have "\<bar>rne (x / q)\<bar> \<le> 2 ^ 53" by (rule rne_bound)
  then have "rne (x / q) \<le> 2 ^ 53" by simp
  then have "(of_int (rne (x / q)) :: real) \<le> of_int (2 ^ 53)" by (simp only: of_int_le_iff)
  then have "of_int (rne (x / q)) * q \<le> of_int (2 ^ 53) * q"
    using q by (intro mult_right_mono) simp_all
  also have "\<dots> = 2 powi (e + 1)" by (simp add: q_def power_int_diff power_int_add)
  finally show ?thesis by (simp add: b64_val_def e_def q_def)
qed

lemma b64_val_lower:
  assumes "0 < x" "- 1022 \<le> \<lfloor>log 2 \<bar>x\<bar>\<rfloor>"
  shows "2 powi \<lfloor>log 2 \<bar>x\<bar>\<rfloor> \<le> b64_val x"
proof -
  define e where "e = \<lfloor>log 2 \<bar>x\<bar>\<rfloor>"
  define q :: real where "q = 2 powi (e - 52)"
  have q: "0 < q" by (simp add: q_def)
  from assms(2) have "max e (- 1022) = e" unfolding e_def by (rule max_absorb1)
  then have val: "b64_val x = of_int (rne (x / q)) * q"
    by (simp only: b64_val_def e_def [symmetric] q_def)
  from assms(1) have "x \<noteq> 0" by simp
  from log2_bounds(1) [OF this] assms(1) have "2 powi e \<le> x" by (simp add: e_def)
  moreover have split: "2 powi e = of_int (2 ^ 52) * q" by (simp add: q_def power_int_diff)
  ultimately have "of_int (2 ^ 52) \<le> x / q" using q by (simp add: pos_le_divide_eq)
  from rne_mono [OF this] have "2 ^ 52 \<le> rne (x / q)" by (simp only: rne_of_int)
  then have "(of_int (2 ^ 52) :: real) \<le> of_int (rne (x / q))" by (simp only: of_int_le_iff)
  then have "of_int (2 ^ 52) * q \<le> of_int (rne (x / q)) * q"
    using q by (intro mult_right_mono) simp_all
  then have "2 powi e \<le> b64_val x" by (simp only: val split)
  then show ?thesis by (simp only: e_def)
qed

lemma b64_val_mono:
  assumes "0 < x" "x \<le> y"
  shows "b64_val x \<le> b64_val y"
proof -
  define ex where "ex = max \<lfloor>log 2 \<bar>x\<bar>\<rfloor> (- 1022)"
  define ey where "ey = max \<lfloor>log 2 \<bar>y\<bar>\<rfloor> (- 1022)"
  from assms have y: "0 < y" by simp
  from assms have "log 2 \<bar>x\<bar> \<le> log 2 \<bar>y\<bar>" by simp
  then have floors: "\<lfloor>log 2 \<bar>x\<bar>\<rfloor> \<le> \<lfloor>log 2 \<bar>y\<bar>\<rfloor>" by (rule floor_mono)
  then have le: "ex \<le> ey" by (simp add: ex_def ey_def)
  show ?thesis
  proof (cases "ex = ey")
    case True
    have "x / 2 powi (ex - 52) \<le> y / 2 powi (ex - 52)"
      using assms(2) by (simp add: divide_right_mono)
    from rne_mono [OF this]
    have "(of_int (rne (x / 2 powi (ex - 52))) :: real) \<le> of_int (rne (y / 2 powi (ex - 52)))"
      by (simp only: of_int_le_iff)
    then have "of_int (rne (x / 2 powi (ex - 52))) * 2 powi (ex - 52)
        \<le> of_int (rne (y / 2 powi (ex - 52))) * (2::real) powi (ex - 52)"
      by (intro mult_right_mono) simp_all
    then show ?thesis
      by (simp add: b64_val_def ex_def [symmetric] ey_def [symmetric] True [symmetric])
  next
    case False
    with le have lt: "ex + 1 \<le> ey" by simp
    have "- 1022 \<le> ex" unfolding ex_def by (rule max.cobounded2)
    with lt have "- 1022 < ey" by simp
    define ly where "ly = \<lfloor>log 2 \<bar>y\<bar>\<rfloor>"
    from \<open>- 1022 < ey\<close> have "- 1022 \<le> ly \<and> ey = ly"
      unfolding ey_def ly_def [symmetric] by linarith
    then have normal: "- 1022 \<le> \<lfloor>log 2 \<bar>y\<bar>\<rfloor>" "ey = \<lfloor>log 2 \<bar>y\<bar>\<rfloor>"
      unfolding ly_def by blast+
    have "b64_val x \<le> 2 powi (ex + 1)"
      using b64_val_upper [OF assms(1)] by (simp add: ex_def)
    also have "\<dots> \<le> 2 powi ey" using lt by (rule powi_mono2)
    also have "\<dots> \<le> b64_val y"
      using b64_val_lower [OF y normal(1)] by (simp add: normal(2))
    finally show ?thesis .
  qed
qed

lemma b64_nonneg:
  assumes "0 \<le> x"
  shows "np_le (Fin 0) (b64 x)"
proof (cases "x = 0")
  case True
  then show ?thesis by (simp add: b64_def)
next
  case False
  with assms have "0 < x" by simp
  from b64_pos [OF this] show ?thesis by simp
qed

lemma b64_mono:
  assumes "0 \<le> x" "x \<le> y"
  shows "np_le (b64 x) (b64 y)"
proof (cases "x = 0")
  case True
  with assms b64_nonneg [of y] show ?thesis by (simp add: b64_def)
next
  case False
  with assms have x: "0 < x" and y: "0 < y" by simp_all
  from b64_val_mono [OF x assms(2)] b64_pos [OF x] b64_pos [OF y]
  show ?thesis by simp
qed

text \<open>
  Six integration points with the stress \<open>5\<close> and the volume \<open>7\<close>: the share \<open>7 / 6\<close> is
  rounded up, and adding it six times gives \<open>7 + 2\<^sup>-\<^sup>5\<^sup>0\<close>, the double after \<open>7\<close>.
\<close>

lemma six_shares:
  "fl_v_eqv_raw binary64 30 [(1, [5, 5, 5, 5, 5, 5])] [(1, 7)] = Inr (Fin (7 + 1 / 2 ^ 50)) \<and>
   fl_v_eqv binary64 30 8 [(1, [5, 5, 5, 5, 5, 5])] [(1, 7)] = Inr (Fin (56 + 1 / 2 ^ 47), 5)"
proof -
  define a :: real where "a = 7 / 6 + (1 / 3) / 2 ^ 52"
  define a2 :: real where "a2 = 2 * a"
  define a3 :: real where "a3 = 7 / 2"
  define a4 :: real where "a4 = 14 / 3 + (1 / 3) / 2 ^ 50"
  define a5 :: real where "a5 = 35 / 6 + (2 / 3) / 2 ^ 50"
  define a6 :: real where "a6 = 7 + 1 / 2 ^ 50"
  note defs = a_def a2_def a3_def a4_def a5_def a6_def
  have ratio: "fl_div b64 5 5 = Fin 1"
    using b64_eval [of 0 1] by (simp add: b64_simps fl_div_def)
  have share: "fl_div b64 7 6 = Fin a"
    using b64_eval [of 0 "7 / 6"] by (simp add: b64_simps a_def fl_div_def)
  have prod1: "fl_mul b64 (Fin 1) (Fin a) = Fin a"
    using b64_eval [of 0 a] by (simp add: b64_simps a_def)
  have s1: "fl_add b64 (Fin 0) (Fin a) = Fin a"
    using b64_eval [of 0 a] by (simp add: b64_simps a_def)
  have s2: "fl_add b64 (Fin a) (Fin a) = Fin a2"
    using b64_eval [of 1 "a + a"] by (simp add: b64_simps defs)
  have s3: "fl_add b64 (Fin a2) (Fin a) = Fin a3"
    using b64_eval [of 1 "a2 + a"] by (simp add: b64_simps defs)
  have s4: "fl_add b64 (Fin a3) (Fin a) = Fin a4"
    using b64_eval [of 2 "a3 + a"] by (simp add: b64_simps defs)
  have s5: "fl_add b64 (Fin a4) (Fin a) = Fin a5"
    using b64_eval [of 2 "a4 + a"] by (simp add: b64_simps defs)
  have s6: "fl_add b64 (Fin a5) (Fin a) = Fin a6"
    using b64_eval [of 2 "a5 + a"] by (simp add: b64_simps defs)
  have acc: "fl_add b64 (Fin 0) (Fin a6) = Fin a6"
    using b64_eval [of 2 a6] by (simp add: b64_simps defs)
  have scaled: "fl_mul b64 (Fin a6) (Fin 8) = Fin (56 + 1 / 2 ^ 47)"
    using b64_eval [of 5 "a6 * 8"] by (simp add: b64_simps defs)
  have elem: "fl_v_eqv_e binary64 30 5 [5, 5, 5, 5, 5, 5] 7 = Fin a6"
    unfolding fl_v_eqv_e_def
    by (simp add: binary64_sel fl_pow_def ratio share prod1 s1 s2 s3 s4 s5 s6
        del: fl_add.simps fl_mul.simps)
  have loop: "fl_v_eqv_loop binary64 30 5 [(1, [5, 5, 5, 5, 5, 5])] [(1, 7)] (Fin 0)
      = Inr (Fin a6)"
  proof -
    have "fl_v_eqv_loop binary64 30 5 [(1, [5, 5, 5, 5, 5, 5])] [(1, 7)] (Fin 0)
        = Inr (fl_add (rnd binary64) (Fin 0) (fl_v_eqv_e binary64 30 5 [5, 5, 5, 5, 5, 5] 7))"
      by simp
    also have "\<dots> = Inr (Fin a6)"
      by (simp only: elem binary64_sel acc)
    finally show ?thesis .
  qed
  have smax: "s_mises_max [(1, [5, 5, 5, 5, 5, 5])] = Inr 5"
    by (simp add: s_mises_max_def)
  have "fl_v_eqv_raw binary64 30 [(1, [5, 5, 5, 5, 5, 5])] [(1, 7)] = Inr (Fin a6)"
    by (simp only: fl_v_eqv_raw_def smax loop sum.case)
  moreover have "fl_v_eqv binary64 30 8 [(1, [5, 5, 5, 5, 5, 5])] [(1, 7)]
      = Inr (Fin (56 + 1 / 2 ^ 47), 5)"
    by (simp only: fl_v_eqv_def smax loop binary64_sel scaled sum.case)
  ultimately show ?thesis by (simp add: a6_def)
qed

lemma six_shares_valid:
  "valid_input 30 [(1, [5, 5, 5, 5, 5, 5])] [(1, 7)]"
  "uniform_stresses 5 [(1, [5, 5, 5, 5, 5, 5])]"
  by (simp_all add: valid_input_def valid_stresses_def valid_volumes_def well_formed_def
      key_set_def all_stresses_def uniform_stresses_def)

subsection \<open>The computed value\<close>

text \<open>
  C1. For a valid input (non-empty mappings with the same keys, every element with at
  least one integration point, stresses non-negative with a positive maximum, positive
  volumes, positive modulus) and a positive symmetry factor, the cells raise nothing,
  \<open>s_mises_max\<close> is the maximum over all integration points of all elements, and \<open>v_eqv\<close>
  is \<open>factor * (\<Sum>e. \<Sum>i. (s\<^sub>e[i] / s\<^sub>m\<^sub>a\<^sub>x) ^ m * (V\<^sub>e / n\<^sub>e))\<close> evaluated in the arithmetic
  of the cells: every quotient, power, product and sum is rounded as it is computed,
  the elements taken in the order of the volume mapping and the factor applied last.
  In exact arithmetic this is the real number that the formula denotes.
\<close>

theorem equivalent_volume_formula:
  assumes "valid_input m s_mises volume" and "0 < factor"
  shows "fl_v_eqv A m factor s_mises volume =
           Inr (fl_mul (rnd A)
                  (foldl (\<lambda>a (e, v). fl_add (rnd A) a
                            (vsum A (map (\<lambda>x. fl_mul (rnd A)
                                             (fl_pow (pw A)
                                                (fl_div (rnd A) x (Max (set (all_stresses s_mises)))) m)
                                             (fl_div (rnd A) v (real (length (stress_at s_mises e)))))
                                       (stress_at s_mises e))))
                     (Fin 0) volume)
                  (Fin factor),
                Max (set (all_stresses s_mises))) \<and>
         fl_v_eqv exact m factor s_mises volume =
           Inr (Fin (factor *
                  (\<Sum>e\<in>key_set s_mises.
                     \<Sum>i<length (stress_at s_mises e).
                       (stress_at s_mises e ! i / Max (set (all_stresses s_mises))) powr m
                         * (volume_at volume e / real (length (stress_at s_mises e))))),
                Max (set (all_stresses s_mises)))"
proof
  from assms(1) have v: "valid_stresses s_mises" "key_set volume \<subseteq> key_set s_mises" "0 < m"
    and wf: "well_formed volume" and keys: "key_set s_mises = key_set volume"
    by (simp_all add: valid_input_def valid_volumes_def)
  show "fl_v_eqv A m factor s_mises volume =
           Inr (fl_mul (rnd A)
                  (foldl (\<lambda>a (e, v). fl_add (rnd A) a
                            (vsum A (map (\<lambda>x. fl_mul (rnd A)
                                             (fl_pow (pw A)
                                                (fl_div (rnd A) x (Max (set (all_stresses s_mises)))) m)
                                             (fl_div (rnd A) v (real (length (stress_at s_mises e)))))
                                       (stress_at s_mises e))))
                     (Fin 0) volume)
                  (Fin factor),
                Max (set (all_stresses s_mises)))"
    by (simp only: fl_v_eqv_valid [OF v(1,2)] fl_v_eqv_e_def Let_def)
  have "raw_sum m s_mises volume =
      (\<Sum>e\<in>key_set volume.
         contribution m (Max (set (all_stresses s_mises))) (stress_at s_mises e) (volume_at volume e))"
    unfolding raw_sum_def by (rule sum_list_by_key [OF wf])
  then show "fl_v_eqv exact m factor s_mises volume =
           Inr (Fin (factor *
                  (\<Sum>e\<in>key_set s_mises.
                     \<Sum>i<length (stress_at s_mises e).
                       (stress_at s_mises e ! i / Max (set (all_stresses s_mises))) powr m
                         * (volume_at volume e / real (length (stress_at s_mises e))))),
                Max (set (all_stresses s_mises)))"
    by (simp add: fl_v_eqv_exact v_eqv_closed [OF v] contribution_nth keys mult.commute)
qed

theorem equivalent_volume_formula_witness:
  "valid_input 30 [(1, [10, 20]), (2, [20])] [(1, 4), (2, 3)] \<and> (0::real) < 8 \<and>
   fl_v_eqv binary64 30 8 [(1, [10, 20]), (2, [20])] [(1, 4), (2, 3)]
     = Inr (Fin (40 + 1 / 2 ^ 26), 20) \<and>
   fl_v_eqv exact 30 8 [(1, [10, 20]), (2, [20])] [(1, 4), (2, 3)]
     = Inr (Fin (8 * (((1 / 2) ^ 30 * 2 + 2) + 3)), 20)"
proof -
  have valid: "valid_input 30 [(1, [10, 20]), (2, [20])] [(1, 4), (2, 3)]"
    by (simp add: valid_input_def valid_stresses_def valid_volumes_def well_formed_def
        key_set_def all_stresses_def)
  from equivalent_volume_formula [OF valid, of 8 binary64]
  have "fl_v_eqv binary64 30 8 [(1, [10, 20]), (2, [20])] [(1, 4), (2, 3)]
     = Inr (Fin (40 + 1 / 2 ^ 26), 20)"
    by (simp add: all_stresses_def stress_at_def b64_cells)
  moreover from equivalent_volume_formula [OF valid, of 8 binary64]
  have "fl_v_eqv exact 30 8 [(1, [10, 20]), (2, [20])] [(1, 4), (2, 3)]
     = Inr (Fin (8 * (((1 / 2) ^ 30 * 2 + 2) + 3)), 20)"
    by (simp add: key_set_def all_stresses_def stress_at_def volume_at_def)
  ultimately show ?thesis using valid by simp
qed

text \<open>
  In binary64 the value is not always the number that the formula denotes: on six
  integration points with the stress \<open>5\<close> and the volume \<open>7\<close> the formula
  denotes \<open>56\<close> and the cells compute \<open>56 + 2\<^sup>-\<^sup>4\<^sup>7\<close>.
\<close>

theorem formula_not_exact_in_binary64:
  "valid_input 30 [(1, [5, 5, 5, 5, 5, 5])] [(1, 7)] \<and>
   fl_v_eqv binary64 30 8 [(1, [5, 5, 5, 5, 5, 5])] [(1, 7)] = Inr (Fin (56 + 1 / 2 ^ 47), 5) \<and>
   8 * (\<Sum>e\<in>key_set [(1, [5, 5, 5, 5, 5, 5 :: real])].
          \<Sum>i<length (stress_at [(1, [5, 5, 5, 5, 5, 5])] e).
            (stress_at [(1, [5, 5, 5, 5, 5, 5])] e ! i
               / Max (set (all_stresses [(1, [5, 5, 5, 5, 5, 5])]))) powr 30
              * (volume_at [(1, 7)] e / real (length (stress_at [(1, [5, 5, 5, 5, 5, 5])] e))))
     = (56 :: real)"
  using six_shares six_shares_valid(1)
  by (simp add: key_set_def all_stresses_def stress_at_def volume_at_def)

subsection \<open>What the cells yield\<close>

text \<open>
  C2. For a valid input the cells end with two values, \<open>v_eqv\<close> and \<open>s_mises_max\<close>:
  \<open>s_mises_max\<close> is the maximum over all integration points of all elements, and it
  occurs at some element. The element itself is not computed.
\<close>

theorem result_pair:
  assumes "valid_input m s_mises volume"
  shows "(\<exists>x. fl_v_eqv A m factor s_mises volume
                = Inr (x, Max (set (all_stresses s_mises)))) \<and>
         critical_elements s_mises \<noteq> []"
proof -
  from assms have v: "valid_stresses s_mises" "key_set volume \<subseteq> key_set s_mises"
    by (simp_all add: valid_input_def)
  let ?smax = "Max (set (all_stresses s_mises))"
  from all_stresses_nonempty [OF v(1)] have "?smax \<in> set (all_stresses s_mises)"
    by (intro Max_in) simp_all
  then obtain e s where "(e, s) \<in> set s_mises" "?smax \<in> set s"
    by (auto simp add: all_stresses_def)
  then have "e \<in> set (critical_elements s_mises)"
    by (force simp add: critical_elements_def)
  then have "critical_elements s_mises \<noteq> []" by auto
  with fl_v_eqv_valid [OF v, of A m factor] show ?thesis by simp
qed

theorem result_pair_witness:
  "valid_input 30 [(1, [10, 20]), (2, [20])] [(1, 4), (2, 3)] \<and>
   (\<exists>x. fl_v_eqv binary64 30 8 [(1, [10, 20]), (2, [20])] [(1, 4), (2, 3)] = Inr (x, 20)) \<and>
   critical_elements [(1, [10, 20]), (2, [20])] \<noteq> []"
proof -
  have valid: "valid_input 30 [(1, [10, 20]), (2, [20])] [(1, 4), (2, 3)]"
    by (simp add: valid_input_def valid_stresses_def valid_volumes_def well_formed_def
        key_set_def all_stresses_def)
  from result_pair [OF valid, of binary64 8] valid show ?thesis
    by (simp add: all_stresses_def)
qed

text \<open>
  Two valid inputs with the maximum at different elements, on which the cells end
  with the same two values.
\<close>

theorem result_has_no_element_id:
  "valid_input 30 [(1, [20]), (2, [10])] [(1, 3), (2, 3)] \<and>
   valid_input 30 [(1, [10]), (2, [20])] [(1, 3), (2, 3)] \<and>
   fl_v_eqv binary64 30 8 [(1, [20]), (2, [10])] [(1, 3), (2, 3)]
     = fl_v_eqv binary64 30 8 [(1, [10]), (2, [20])] [(1, 3), (2, 3)] \<and>
   critical_elements [(1, [20]), (2, [10])] = [1] \<and>
   critical_elements [(1, [10]), (2, [20])] = [2]"
  by (simp add: valid_input_def valid_stresses_def valid_volumes_def well_formed_def
      key_set_def all_stresses_def critical_elements_def b64_cells)

subsection \<open>Bounds\<close>

lemma np_le_between:
  assumes "np_le (Fin a) z" "np_le z (Fin b)"
  shows "\<exists>y. z = Fin y \<and> a \<le> y \<and> y \<le> b"
  using assms by (cases z) simp_all

lemma np_le_trans:
  assumes "np_le a b" "np_le b c"
  shows "np_le a c"
  using assms by (cases a; cases b; cases c) simp_all

lemma rnd_between:
  assumes "ordered_arith A" "rnd A a = Fin a" "rnd A b = Fin b" "a \<le> x" "x \<le> b" "0 \<le> a"
  shows "\<exists>y. rnd A x = Fin y \<and> a \<le> y \<and> y \<le> b"
proof -
  from assms(1,4,5,6) have "np_le (rnd A a) (rnd A x)" "np_le (rnd A x) (rnd A b)"
    by (simp_all add: ordered_arith_def)
  with assms(2,3) show ?thesis by (simp add: np_le_between)
qed

lemma fl_pow_unit:
  assumes "ordered_arith A" "0 \<le> \<rho>" "\<rho> \<le> 1" "0 < m"
  shows "\<exists>p. fl_pow (pw A) (Fin \<rho>) m = Fin p \<and> 0 \<le> p \<and> p \<le> 1"
proof (cases "\<rho> = 1 \<or> \<rho> = 0")
  case True
  with assms(4) show ?thesis by (auto simp add: fl_pow_def)
next
  case False
  with assms have "np_le (Fin 0) (pw A \<rho> m)" "np_le (pw A \<rho> m) (Fin 1)"
    by (simp_all add: ordered_arith_def)
  from np_le_between [OF this] False assms(4) show ?thesis by (simp add: fl_pow_def)
qed

lemma term_bounds:
  assumes A: "ordered_arith A" and m: "0 < m" and smax: "0 < smax"
    and x: "0 \<le> x" "x \<le> smax" and w: "rnd A w = Fin w" "0 \<le> w"
  shows "\<exists>t. fl_mul (rnd A) (fl_pow (pw A) (fl_div (rnd A) x smax) m) (Fin w) = Fin t \<and>
             0 \<le> t \<and> t \<le> w"
proof -
  from A have zero: "rnd A 0 = Fin 0" and one: "rnd A 1 = Fin 1"
    by (simp_all add: ordered_arith_def)
  from smax x have "0 \<le> x / smax" "x / smax \<le> 1" by simp_all
  from rnd_between [OF A zero one this] smax obtain \<rho>
    where \<rho>: "fl_div (rnd A) x smax = Fin \<rho>" "0 \<le> \<rho>" "\<rho> \<le> 1"
    by (auto simp add: fl_div_def)
  from fl_pow_unit [OF A \<rho>(2,3) m] obtain p
    where p: "fl_pow (pw A) (Fin \<rho>) m = Fin p" "0 \<le> p" "p \<le> 1" by blast
  from p(2,3) w(2) have "0 \<le> p * w" "p * w \<le> w"
    by (simp_all add: mult_left_le_one_le)
  from rnd_between [OF A zero w(1) this] show ?thesis
    by (simp add: \<rho>(1) p(1))
qed

lemma share_bounds:
  assumes A: "ordered_arith A" and v: "rnd A v = Fin v" "0 \<le> v" and n: "0 < n"
  shows "\<exists>w. fl_div (rnd A) v (real n) = Fin w \<and> rnd A w = Fin w \<and> 0 \<le> w"
proof -
  from A have zero: "rnd A 0 = Fin 0"
    and idem: "\<And>x y. rnd A x = Fin y \<Longrightarrow> rnd A y = Fin y"
    by (simp_all add: ordered_arith_def)
  from v(2) n have "0 \<le> v / real n" "v / real n \<le> v"
    by (simp_all add: field_simps mult_le_cancel_left1)
  from rnd_between [OF A zero v(1) this] obtain w
    where w: "rnd A (v / real n) = Fin w" "0 \<le> w" by blast
  with idem [OF w(1)] n show ?thesis by (simp add: fl_div_def)
qed

lemma element_bounds:
  assumes A: "ordered_arith A" and m: "0 < m" and smax: "0 < smax"
    and s: "s \<noteq> []" "\<forall>x\<in>set s. 0 \<le> x \<and> x \<le> smax"
    and v: "rnd A v = Fin v" "0 \<le> v"
  shows "np_le (Fin 0) (fl_v_eqv_e A m smax s v)"
    and "np_le (fl_v_eqv_e A m smax s v)
           (vsum A (replicate (length s) (fl_div (rnd A) v (real (length s)))))"
proof -
  from A have mono: "\<And>xs ys. list_all2 (\<lambda>x y. np_le (Fin 0) x \<and> np_le x y) xs ys
      \<Longrightarrow> np_le (vsum A xs) (vsum A ys)"
    and zeros: "\<And>n. vsum A (replicate n (Fin 0)) = Fin 0"
    by (simp_all add: ordered_arith_def)
  from s(1) have n: "0 < length s" by simp
  from share_bounds [OF A v n] obtain w
    where w: "fl_div (rnd A) v (real (length s)) = Fin w" "rnd A w = Fin w" "0 \<le> w"
    by blast
  let ?terms = "map (\<lambda>x. fl_mul (rnd A) (fl_pow (pw A) (fl_div (rnd A) x smax) m) (Fin w)) s"
  have each: "np_le (Fin 0) t \<and> np_le t (Fin w)" if "t \<in> set ?terms" for t
  proof -
    from that obtain x where "x \<in> set s"
      "t = fl_mul (rnd A) (fl_pow (pw A) (fl_div (rnd A) x smax) m) (Fin w)"
      by auto
    with term_bounds [OF A m smax _ _ w(2,3), of x] s(2) show ?thesis by auto
  qed
  have e: "fl_v_eqv_e A m smax s v = vsum A ?terms"
    by (simp add: fl_v_eqv_e_def w(1))
  have "list_all2 (\<lambda>x y. np_le (Fin 0) x \<and> np_le x y) (replicate (length s) (Fin 0)) ?terms"
    using each by (auto simp add: list_all2_conv_all_nth)
  from mono [OF this] show "np_le (Fin 0) (fl_v_eqv_e A m smax s v)"
    by (simp add: zeros e)
  have "list_all2 (\<lambda>x y. np_le (Fin 0) x \<and> np_le x y) ?terms (replicate (length s) (Fin w))"
    using each by (auto simp add: list_all2_conv_all_nth)
  from mono [OF this] show "np_le (fl_v_eqv_e A m smax s v)
      (vsum A (replicate (length s) (fl_div (rnd A) v (real (length s)))))"
    by (simp add: e w(1))
qed

lemma fl_add_bounds:
  assumes "\<forall>x y. 0 \<le> x \<and> x \<le> y \<longrightarrow> np_le (r x) (r y)" "r 0 = Fin 0"
    and "np_le (Fin 0) a" "np_le a a'" "np_le (Fin 0) b" "np_le b b'"
  shows "np_le (Fin 0) (fl_add r a b)" "np_le (fl_add r a b) (fl_add r a' b')"
proof -
  have refl: "np_le (r x) (r x)" if "0 \<le> x" for x using assms(1) that by simp
  have pinf: "np_le (r x) PInf" if "0 \<le> x" for x
    using refl [OF that] by (cases "r x") simp_all
  show "np_le (Fin 0) (fl_add r a b)"
  proof (cases a; cases b)
    fix x y assume "a = Fin x" "b = Fin y"
    with assms(3,5) have "np_le (r 0) (r (x + y))" "fl_add r a b = r (x + y)"
      using assms(1) by simp_all
    with assms(2) show ?thesis by simp
  qed (use assms(3,5) in simp_all)
  show "np_le (fl_add r a b) (fl_add r a' b')"
  proof (cases a; cases b; cases a'; cases b')
    fix x y x' y' assume *: "a = Fin x" "b = Fin y" "a' = Fin x'" "b' = Fin y'"
    with assms(3-6) have "0 \<le> x + y" "x + y \<le> x' + y'" by simp_all
    with assms(1) have "np_le (r (x + y)) (r (x' + y'))" by simp
    with * show ?thesis by simp
  qed (use assms(3-6) pinf in simp_all)
qed

lemma loop_bounds:
  assumes r: "\<forall>x y. 0 \<le> x \<and> x \<le> y \<longrightarrow> np_le (r x) (r y)" "r 0 = Fin 0"
    and each: "\<forall>(e, v)\<in>set vol. np_le (Fin 0) (F e v) \<and> np_le (F e v) (G e v)"
    and acc: "np_le (Fin 0) a" "np_le a a'"
  shows "np_le (Fin 0) (foldl (\<lambda>a (e, v). fl_add r a (F e v)) a vol) \<and>
         np_le (foldl (\<lambda>a (e, v). fl_add r a (F e v)) a vol)
               (foldl (\<lambda>a (e, v). fl_add r a (G e v)) a' vol)"
  using each acc
proof (induction vol arbitrary: a a')
  case Nil
  then show ?case by simp
next
  case (Cons p vol)
  obtain e v where p: "p = (e, v)" by (cases p)
  with Cons.prems(1) have ev: "np_le (Fin 0) (F e v)" "np_le (F e v) (G e v)" by simp_all
  from Cons.prems(1) have rest:
    "\<forall>(e, v)\<in>set vol. np_le (Fin 0) (F e v) \<and> np_le (F e v) (G e v)" by simp
  from fl_add_bounds [OF r Cons.prems(2,3) ev]
  have "np_le (Fin 0) (fl_add r a (F e v))"
    "np_le (fl_add r a (F e v)) (fl_add r a' (G e v))" .
  from Cons.IH [OF rest this] show ?case by (simp add: p)
qed

lemma sum_in_order_mono:
  assumes r: "\<forall>x y. 0 \<le> x \<and> x \<le> y \<longrightarrow> np_le (r x) (r y)" "r 0 = Fin 0"
    and "list_all2 (\<lambda>x y. np_le (Fin 0) x \<and> np_le x y) xs ys"
    and "np_le (Fin 0) a" "np_le a a'"
  shows "np_le (Fin 0) (foldl (fl_add r) a xs) \<and>
         np_le (foldl (fl_add r) a xs) (foldl (fl_add r) a' ys)"
  using assms(3-5)
proof (induction xs ys arbitrary: a a' rule: list_all2_induct)
  case Nil
  then show ?case by simp
next
  case (Cons x xs y ys)
  from fl_add_bounds [OF r Cons.prems(1,2), of x y] Cons.hyps(1)
  have "np_le (Fin 0) (fl_add r a x)" "np_le (fl_add r a x) (fl_add r a' y)" by simp_all
  from Cons.IH [OF this] show ?case by simp
qed

lemma sum_in_order_zeros:
  assumes "r 0 = Fin 0"
  shows "foldl (fl_add r) (Fin 0) (replicate n (Fin 0)) = Fin 0"
  using assms by (induction n) simp_all

lemma ordered_arith_binary64: "ordered_arith binary64"
proof -
  have mono: "\<forall>x y. 0 \<le> x \<and> x \<le> y \<longrightarrow> np_le (b64 x) (b64 y)"
    using b64_mono by blast
  have zero: "b64 0 = Fin 0" by (simp add: b64_def)
  have pow: "np_le (Fin 0) (b64_pow x m) \<and> np_le (b64_pow x m) (Fin 1)"
    if "0 < x \<and> x < 1 \<and> 0 < m" for x m
  proof -
    from that have p: "b64_pow x m = b64 (x powr m)"
      by (simp add: b64_pow_def np_power_def)
    from that have "0 \<le> x powr m" "x powr m \<le> 1" by (simp_all add: powr_le1)
    with b64_mono [of 0 "x powr m"] b64_mono [of "x powr m" 1] show ?thesis
      by (simp add: p zero b64_one)
  qed
  have sums: "np_le (foldl (fl_add b64) (Fin 0) xs) (foldl (fl_add b64) (Fin 0) ys)"
    if "list_all2 (\<lambda>x y. np_le (Fin 0) x \<and> np_le x y) xs ys" for xs ys
    using sum_in_order_mono [OF mono zero that, of "Fin 0" "Fin 0"] by simp
  show ?thesis
    unfolding ordered_arith_def binary64_sel
    using mono zero b64_one b64_idem pow sums sum_in_order_zeros [of b64, OF zero]
    by blast
qed

text \<open>
  C5. For a valid input whose volumes are floats, and in an arithmetic that is
  ordered, the sum before the symmetry factor lies between \<open>0\<close> and the sum of the
  volume shares \<open>V\<^sub>e / n\<^sub>e\<close> computed in the same arithmetic. In exact arithmetic the
  latter is the sum of the element volumes.
\<close>

theorem raw_volume_bounded:
  assumes "valid_input m s_mises volume" and "ordered_arith A"
    and "\<forall>v\<in>set (map snd volume). rnd A v = Fin v"
  shows "(\<exists>raw. fl_v_eqv_raw A m s_mises volume = Inr raw \<and>
            np_le (Fin 0) raw \<and> np_le raw (share_sum A s_mises volume)) \<and>
         (\<exists>raw. fl_v_eqv_raw exact m s_mises volume = Inr (Fin raw) \<and>
            0 \<le> raw \<and> raw \<le> sum_list (map snd volume))"
proof
  from assms(1) have v: "valid_stresses s_mises" "key_set volume \<subseteq> key_set s_mises" "0 < m"
    and vol: "valid_volumes volume"
    by (simp_all add: valid_input_def)
  let ?smax = "Max (set (all_stresses s_mises))"
  from v(1) have smax: "0 < ?smax" by (simp add: valid_stresses_def)
  from assms(2) have r: "\<forall>x y. 0 \<le> x \<and> x \<le> y \<longrightarrow> np_le (rnd A x) (rnd A y)"
    "rnd A 0 = Fin 0"
    by (simp_all add: ordered_arith_def)
  let ?F = "\<lambda>e v. fl_v_eqv_e A m ?smax (stress_at s_mises e) v"
  let ?G = "\<lambda>e v. vsum A (replicate (length (stress_at s_mises e))
                        (fl_div (rnd A) v (real (length (stress_at s_mises e)))))"
  have each: "\<forall>(e, w)\<in>set volume. np_le (Fin 0) (?F e w) \<and> np_le (?F e w) (?G e w)"
  proof (intro ballI, clarify)
    fix e w assume mem: "(e, w) \<in> set volume"
    with v(2) have e: "e \<in> key_set s_mises" by (force simp add: key_set_def)
    from mem vol have w: "0 \<le> w" by (force simp add: valid_volumes_def)
    from mem assms(3) have rep: "rnd A w = Fin w" by force
    from stress_at_valid [OF v(1) e] v(1)
    have s: "stress_at s_mises e \<noteq> []"
      "\<forall>x\<in>set (stress_at s_mises e). 0 \<le> x \<and> x \<le> ?smax"
      by (auto simp add: valid_stresses_def)
    from element_bounds [OF assms(2) v(3) smax s rep w]
    show "np_le (Fin 0) (?F e w) \<and> np_le (?F e w) (?G e w)" by simp
  qed
  from loop_bounds [OF r each, of "Fin 0" "Fin 0"]
  show "\<exists>raw. fl_v_eqv_raw A m s_mises volume = Inr raw \<and>
          np_le (Fin 0) raw \<and> np_le raw (share_sum A s_mises volume)"
    by (simp add: fl_v_eqv_raw_valid [OF v(1,2)] share_sum_def)
  from v(3) have "0 \<le> m" by simp
  from raw_sum_bounds [OF v(1) vol v(2) this] v_eqv_raw_closed [OF v]
  show "\<exists>raw. fl_v_eqv_raw exact m s_mises volume = Inr (Fin raw) \<and>
          0 \<le> raw \<and> raw \<le> sum_list (map snd volume)"
    by (simp add: fl_v_eqv_raw_exact)
qed

theorem raw_volume_bounded_witness:
  "valid_input 30 [(1, [10, 20]), (2, [20])] [(1, 4), (2, 3)] \<and>
   ordered_arith binary64 \<and>
   list_all (\<lambda>v. rnd binary64 v = Fin v) (map snd [(1, 4), (2, 3 :: real)]) \<and>
   (\<exists>raw. fl_v_eqv_raw binary64 30 [(1, [10, 20]), (2, [20])] [(1, 4), (2, 3)] = Inr raw \<and>
      np_le (Fin 0) raw \<and>
      np_le raw (share_sum binary64 [(1, [10, 20]), (2, [20])] [(1, 4), (2, 3)])) \<and>
   share_sum binary64 [(1, [10, 20]), (2, [20])] [(1, 4), (2, 3)] = Fin 7 \<and>
   (\<exists>raw. fl_v_eqv_raw exact 30 [(1, [10, 20]), (2, [20])] [(1, 4), (2, 3)] = Inr (Fin raw) \<and>
      0 \<le> raw \<and> raw \<le> sum_list (map snd [(1, 4), (2, 3 :: real)]))"
proof -
  have valid: "valid_input 30 [(1, [10, 20]), (2, [20])] [(1, 4), (2, 3)]"
    by (simp add: valid_input_def valid_stresses_def valid_volumes_def well_formed_def
        key_set_def all_stresses_def)
  have floats: "\<forall>v\<in>set (map snd [(1, 4), (2, 3 :: real)]). rnd binary64 v = Fin v"
    by (simp add: binary64_sel b64_exact_simps)
  have shares: "share_sum binary64 [(1, [10, 20]), (2, [20])] [(1, 4), (2, 3)] = Fin 7"
    by (simp add: share_sum_def stress_at_def binary64_sel fl_div_def b64_exact_simps)
  from raw_volume_bounded [OF valid ordered_arith_binary64 floats]
    valid ordered_arith_binary64 floats shares
  show ?thesis by simp
qed

text \<open>
  In binary64 the sum of the volume shares, and with it the sum before the symmetry
  factor, can exceed the sum of the element volumes.
\<close>

theorem raw_volume_above_volume_sum:
  "valid_input 30 [(1, [5, 5, 5, 5, 5, 5])] [(1, 7)] \<and>
   list_all (\<lambda>v. rnd binary64 v = Fin v) (map snd [(1, 7 :: real)]) \<and>
   fl_v_eqv_raw binary64 30 [(1, [5, 5, 5, 5, 5, 5])] [(1, 7)] = Inr (Fin (7 + 1 / 2 ^ 50)) \<and>
   sum_list (map snd [(1, 7 :: real)]) < 7 + 1 / 2 ^ 50"
  using six_shares six_shares_valid(1) by (simp add: binary64_sel b64_exact_simps)

subsection \<open>Scaling the stresses\<close>

lemma fl_div_scale:
  assumes "0 < k"
  shows "fl_div r (k * x) (k * y) = fl_div r x y"
  using assms by (simp add: fl_div_def zero_less_mult_iff mult_less_0_iff)

lemma fl_v_eqv_e_scale:
  assumes "0 < k"
  shows "fl_v_eqv_e A m (k * smax) (map (\<lambda>x. k * x) s) v = fl_v_eqv_e A m smax s v"
  using assms by (simp add: fl_v_eqv_e_def fl_div_scale comp_def)

text \<open>
  C6. Replacing every stress value \<open>s\<close> by the number \<open>k * s\<close>, for a positive \<open>k\<close>, leaves
  \<open>v_eqv\<close> unchanged in every arithmetic, and multiplies the maximum stress by \<open>k\<close>: the
  quotients \<open>s / s_mises_max\<close> are quotients of the same numbers.
\<close>

theorem stress_scale_invariance:
  assumes "valid_input m s_mises volume" and "0 < k"
  shows "\<exists>x smax. fl_v_eqv A m factor s_mises volume = Inr (x, smax) \<and>
           fl_v_eqv A m factor (scale_stresses k s_mises) volume = Inr (x, k * smax)"
proof -
  from assms(1) have v: "valid_stresses s_mises" "key_set volume \<subseteq> key_set s_mises"
    by (simp_all add: valid_input_def)
  have v': "valid_stresses (scale_stresses k s_mises)"
    "key_set volume \<subseteq> key_set (scale_stresses k s_mises)"
    using v valid_stresses_scale [OF v(1) assms(2)] by (simp_all add: key_set_scale)
  let ?smax = "Max (set (all_stresses s_mises))"
  have smax: "Max (set (all_stresses (scale_stresses k s_mises))) = k * ?smax"
    using Max_scale [OF assms(2) all_stresses_nonempty [OF v(1)]]
    by (simp add: all_stresses_scale)
  have "foldl (\<lambda>a (e, v). fl_add (rnd A) a
                 (fl_v_eqv_e A m (k * ?smax) (stress_at (scale_stresses k s_mises) e) v))
          (Fin 0) volume
      = foldl (\<lambda>a (e, v). fl_add (rnd A) a (fl_v_eqv_e A m ?smax (stress_at s_mises e) v))
          (Fin 0) volume"
  proof (rule foldl_cong_set)
    fix a p assume p: "p \<in> set volume"
    obtain e w where ev: "p = (e, w)" by (cases p)
    with p v(2) have "e \<in> key_set s_mises" by (force simp add: key_set_def)
    then show "(case p of (e, v) \<Rightarrow> fl_add (rnd A) a
                  (fl_v_eqv_e A m (k * ?smax) (stress_at (scale_stresses k s_mises) e) v))
        = (case p of (e, v) \<Rightarrow> fl_add (rnd A) a
              (fl_v_eqv_e A m ?smax (stress_at s_mises e) v))"
      using assms(2) by (simp add: ev stress_at_scale fl_v_eqv_e_scale)
  qed
  then show ?thesis
    by (simp only: fl_v_eqv_valid [OF v] fl_v_eqv_valid [OF v'] smax) blast
qed

theorem stress_scale_invariance_witness:
  "valid_input 30 [(1, [10, 20]), (2, [20])] [(1, 4), (2, 3)] \<and> (0::real) < 2 \<and>
   (\<exists>x smax.
      fl_v_eqv binary64 30 8 [(1, [10, 20]), (2, [20])] [(1, 4), (2, 3)] = Inr (x, smax) \<and>
      fl_v_eqv binary64 30 8 (scale_stresses 2 [(1, [10, 20]), (2, [20])]) [(1, 4), (2, 3)]
        = Inr (x, 2 * smax))"
proof -
  have valid: "valid_input 30 [(1, [10, 20]), (2, [20])] [(1, 4), (2, 3)]"
    by (simp add: valid_input_def valid_stresses_def valid_volumes_def well_formed_def
        key_set_def all_stresses_def)
  from stress_scale_invariance [OF valid, of 2 binary64 8] valid show ?thesis by simp
qed

text \<open>
  When the products \<open>k * s\<close> are themselves computed in binary64, they are rounded, and
  \<open>v_eqv\<close> can change: with \<open>k = 2\<^sup>-\<^sup>1\<^sup>0\<^sup>6\<^sup>0\<close> the stress \<open>2\<^sup>-\<^sup>3\<^sup>0\<close> becomes \<open>0\<close>.
\<close>

theorem rounded_scaling_changes_result:
  "valid_input 30 [(1, [1]), (2, [1 / 2 ^ 30])] [(1, 1 / 2 ^ 1000), (2, 1)] \<and>
   fl_mul b64 (Fin (1 / 2 ^ 1060)) (Fin 1) = Fin (1 / 2 ^ 1060) \<and>
   fl_mul b64 (Fin (1 / 2 ^ 1060)) (Fin (1 / 2 ^ 30)) = Fin 0 \<and>
   fl_v_eqv binary64 30 8 [(1, [1]), (2, [1 / 2 ^ 30])] [(1, 1 / 2 ^ 1000), (2, 1)]
     = Inr (Fin (1 / 2 ^ 897), 1) \<and>
   fl_v_eqv binary64 30 8 [(1, [1 / 2 ^ 1060]), (2, [0])] [(1, 1 / 2 ^ 1000), (2, 1)]
     = Inr (Fin (1 / 2 ^ 997), 1 / 2 ^ 1060)"
proof -
  have under: "b64 (1 / 2 ^ 1090) = Fin 0"
    using b64_eval [of "- 1090" "1 / 2 ^ 1090"] by (simp add: b64_simps)
  have absorbed: "b64 (1 / 2 ^ 1000 + 1 / 2 ^ 900) = Fin (1 / 2 ^ 900)"
    using b64_eval [of "- 900" "1 / 2 ^ 1000 + 1 / 2 ^ 900"] by (simp add: b64_simps)
  note facts = under [simplified] absorbed [simplified] b64_zero
  have valid: "valid_input 30 [(1, [1]), (2, [1 / 2 ^ 30])] [(1, 1 / 2 ^ 1000), (2, 1)]"
    by (simp add: valid_input_def valid_stresses_def valid_volumes_def well_formed_def
        key_set_def all_stresses_def)
  have products: "fl_mul b64 (Fin (1 / 2 ^ 1060)) (Fin 1) = Fin (1 / 2 ^ 1060)"
    "fl_mul b64 (Fin (1 / 2 ^ 1060)) (Fin (1 / 2 ^ 30)) = Fin 0"
    by (simp_all add: b64_exact_simps facts)
  have before: "fl_v_eqv binary64 30 8 [(1, [1]), (2, [1 / 2 ^ 30])] [(1, 1 / 2 ^ 1000), (2, 1)]
      = Inr (Fin (1 / 2 ^ 897), 1)"
    by (simp add: b64_cells facts)
  have after: "fl_v_eqv binary64 30 8 [(1, [1 / 2 ^ 1060]), (2, [0])] [(1, 1 / 2 ^ 1000), (2, 1)]
      = Inr (Fin (1 / 2 ^ 997), 1 / 2 ^ 1060)"
    by (simp add: b64_cells facts)
  from valid products before after show ?thesis by (simp only: simp_thms)
qed

subsection \<open>Uniform stress\<close>

lemma fl_mul_one:
  assumes "rounds_to_itself r"
  shows "fl_mul r (Fin 1) (r x) = r x"
proof (cases "r x")
  case (Fin y)
  with assms have "r y = Fin y" by (auto simp add: rounds_to_itself_def)
  with Fin show ?thesis by simp
qed (simp_all add: inf_of_sign_def)

lemma fl_v_eqv_e_uniform:
  assumes "rounds_to_itself (rnd A)" "c \<noteq> 0" "s \<noteq> []" "\<forall>x\<in>set s. x = c"
  shows "fl_v_eqv_e A m c s v
           = vsum A (replicate (length s) (fl_div (rnd A) v (real (length s))))"
proof -
  let ?share = "fl_div (rnd A) v (real (length s))"
  from assms(3) have share: "?share = rnd A (v / real (length s))"
    by (simp add: fl_div_def)
  have one: "fl_div (rnd A) c c = Fin 1"
    using assms(1,2) by (simp add: fl_div_def rounds_to_itself_def)
  have "fl_mul (rnd A) (fl_pow (pw A) (fl_div (rnd A) x c) m) ?share = ?share"
    if "x \<in> set s" for x
  proof -
    from that assms(4) have "x = c" by simp
    then have "fl_pow (pw A) (fl_div (rnd A) x c) m = Fin 1"
      by (simp add: one fl_pow_def)
    then show ?thesis
      using fl_mul_one [OF assms(1)] by (simp only: share)
  qed
  then have "map (\<lambda>x. fl_mul (rnd A) (fl_pow (pw A) (fl_div (rnd A) x c) m) ?share) s
      = map (\<lambda>x. ?share) s"
    by (intro map_cong refl)
  then show ?thesis
    by (simp only: fl_v_eqv_e_def Let_def map_replicate_const)
qed

lemma loop_uniform:
  assumes "valid_stresses st" "key_set vol \<subseteq> key_set st"
    and "\<forall>x\<in>set (all_stresses st). x = c" "rounds_to_itself (rnd A)"
  shows "foldl (\<lambda>a (e, v). fl_add (rnd A) a
                  (fl_v_eqv_e A m (Max (set (all_stresses st))) (stress_at st e) v))
           (Fin 0) vol
         = share_sum A st vol"
  unfolding share_sum_def
proof (rule foldl_cong_set)
  fix a p assume p: "p \<in> set vol"
  obtain e v where ev: "p = (e, v)" by (cases p)
  with p assms(2) have e: "e \<in> key_set st" by (force simp add: key_set_def)
  have smax: "Max (set (all_stresses st)) = c" by (rule Max_uniform [OF assms(1,3)])
  with assms(1) have c: "c \<noteq> 0" by (auto simp add: valid_stresses_def)
  from stress_at_valid [OF assms(1) e] assms(3)
  have "fl_v_eqv_e A m c (stress_at st e) v
      = vsum A (replicate (length (stress_at st e))
          (fl_div (rnd A) v (real (length (stress_at st e)))))"
    by (intro fl_v_eqv_e_uniform [OF assms(4) c]) auto
  then show "(case p of (e, v) \<Rightarrow> fl_add (rnd A) a
                  (fl_v_eqv_e A m (Max (set (all_stresses st))) (stress_at st e) v))
      = (case p of (e, v) \<Rightarrow> fl_add (rnd A) a
              (vsum A (replicate (length (stress_at st e))
                 (fl_div (rnd A) v (real (length (stress_at st e)))))))"
    by (simp add: ev smax)
qed

text \<open>
  C7. When all stress values are one positive constant, every ratio is exactly \<open>1\<close> and
  so is its power: the sum before the symmetry factor is the sum of the volume shares
  \<open>V\<^sub>e / n\<^sub>e\<close> computed in the arithmetic of the cells, and \<open>v_eqv\<close> is that sum times the
  symmetry factor. In exact arithmetic the two are the sum of the element volumes, and
  the symmetry factor times that sum.
\<close>

theorem uniform_stress_shares:
  assumes "valid_input m s_mises volume" and "uniform_stresses c s_mises"
    and "rounds_to_itself (rnd A)"
  shows "fl_v_eqv_raw A m s_mises volume = Inr (share_sum A s_mises volume) \<and>
         fl_v_eqv A m factor s_mises volume
           = Inr (fl_mul (rnd A) (share_sum A s_mises volume) (Fin factor), c) \<and>
         fl_v_eqv_raw exact m s_mises volume = Inr (Fin (sum_list (map snd volume))) \<and>
         fl_v_eqv exact m factor s_mises volume
           = Inr (Fin (factor * sum_list (map snd volume)), c)"
proof -
  from assms(1) have v: "valid_stresses s_mises" "key_set volume \<subseteq> key_set s_mises" "0 < m"
    by (simp_all add: valid_input_def)
  from assms(2) have u: "\<forall>x\<in>set (all_stresses s_mises). x = c"
    by (simp add: uniform_stresses_def)
  have smax: "Max (set (all_stresses s_mises)) = c" by (rule Max_uniform [OF v(1) u])
  have "fl_v_eqv_raw A m s_mises volume = Inr (share_sum A s_mises volume)"
    by (simp only: fl_v_eqv_raw_valid [OF v(1,2)] loop_uniform [OF v(1,2) u assms(3)])
  moreover have "fl_v_eqv A m factor s_mises volume
      = Inr (fl_mul (rnd A) (share_sum A s_mises volume) (Fin factor), c)"
    by (simp only: fl_v_eqv_valid [OF v(1,2)] loop_uniform [OF v(1,2) u assms(3)])
      (simp only: smax)
  moreover have "fl_v_eqv_raw exact m s_mises volume = Inr (Fin (sum_list (map snd volume)))"
    using v_eqv_raw_closed [OF v]
    by (simp add: fl_v_eqv_raw_exact raw_sum_uniform [OF v(1,2) u])
  moreover have "fl_v_eqv exact m factor s_mises volume
      = Inr (Fin (factor * sum_list (map snd volume)), c)"
    using v_eqv_closed [OF v, of factor]
    by (simp add: fl_v_eqv_exact raw_sum_uniform [OF v(1,2) u] smax mult.commute)
  ultimately show ?thesis by simp
qed

theorem uniform_stress_shares_witness:
  "valid_input 30 [(1, [5, 5, 5, 5, 5, 5])] [(1, 7)] \<and>
   uniform_stresses 5 [(1, [5, 5, 5, 5, 5, 5])] \<and>
   rounds_to_itself (rnd binary64) \<and>
   fl_v_eqv_raw binary64 30 [(1, [5, 5, 5, 5, 5, 5])] [(1, 7)]
     = Inr (share_sum binary64 [(1, [5, 5, 5, 5, 5, 5])] [(1, 7)]) \<and>
   fl_v_eqv_raw exact 30 [(1, [5, 5, 5, 5, 5, 5])] [(1, 7)] = Inr (Fin 7) \<and>
   fl_v_eqv exact 30 8 [(1, [5, 5, 5, 5, 5, 5])] [(1, 7)] = Inr (Fin 56, 5)"
  using uniform_stress_shares [OF six_shares_valid rnd_binary64_itself, of 8]
    six_shares_valid rnd_binary64_itself
  by simp

text \<open>
  In binary64 the sum of the shares is not always the sum of the element volumes.
\<close>

theorem uniform_stress_not_exact_in_binary64:
  "valid_input 30 [(1, [5, 5, 5, 5, 5, 5])] [(1, 7)] \<and>
   uniform_stresses 5 [(1, [5, 5, 5, 5, 5, 5])] \<and>
   sum_list (map snd [(1, 7 :: real)]) = 7 \<and>
   fl_v_eqv_raw binary64 30 [(1, [5, 5, 5, 5, 5, 5])] [(1, 7)] = Inr (Fin (7 + 1 / 2 ^ 50)) \<and>
   fl_v_eqv binary64 30 8 [(1, [5, 5, 5, 5, 5, 5])] [(1, 7)] = Inr (Fin (56 + 1 / 2 ^ 47), 5)"
  using six_shares six_shares_valid by simp

subsection \<open>The two-element scenario\<close>



end
